theory Spec2Isabelle
  imports Complex_Main "HOL-Library.Char_ord" "HOL-Library.List_Lexorder"
begin

section \<open>Values, errors and data frames\<close>

text \<open>
  The Python code works on pandas data frames held in a featuretools entity set.
  A data frame is modelled column by column: the row labels (\<open>index\<close>) and, in
  column order, each column's name with its cells, one per row.  A cell is a number,
  a string, a timestamp (seconds), or one of the two missing values: \<open>NaN\<close> for
  numeric and object columns, \<open>NaT\<close> for datetime columns.  Every exception the code
  can raise is a value of \<open>error\<close>; a function that can raise returns \<open>error + 'a\<close>.
\<close>

datatype error = KeyError | ValueError | TypeError | IndexError | AttributeError

datatype cell = NaN | NaT | Num real | Str string | Time int

record dataframe =
  index :: "cell list"
  columns :: "(string \<times> cell list) list"

fun and_then :: "error + 'a \<Rightarrow> ('a \<Rightarrow> error + 'b) \<Rightarrow> error + 'b" where
  "and_then (Inl e) f = Inl e"
| "and_then (Inr x) f = f x"

text \<open>Running a fallible step over a list stops at the first exception.\<close>

fun sequence :: "(error + 'a) list \<Rightarrow> error + 'a list" where
  "sequence [] = Inr []"
| "sequence (Inl e # rs) = Inl e"
| "sequence (Inr x # rs) = (case sequence rs of Inl e \<Rightarrow> Inl e | Inr xs \<Rightarrow> Inr (x # xs))"

definition column_names :: "dataframe \<Rightarrow> string list" where
  "column_names df = map fst (columns df)"

text \<open>\<open>df[name]\<close>: the column of that name, \<open>KeyError\<close> when there is none.\<close>

definition getitem :: "dataframe \<Rightarrow> string \<Rightarrow> error + cell list" where
  "getitem df name =
     (case map_of (columns df) name of None \<Rightarrow> Inl KeyError | Some vs \<Rightarrow> Inr vs)"

text \<open>Boolean indexing \<open>df[mask]\<close> keeps the rows whose mask entry is true.\<close>

fun select :: "bool list \<Rightarrow> 'a list \<Rightarrow> 'a list" where
  "select (b # bs) (x # xs) = (if b then x # select bs xs else select bs xs)"
| "select _ _ = []"




section \<open>The entity set\<close>

text \<open>
  A relationship links a child data frame's column to a parent data frame's column.
  The entity set names its data frames and lists its relationships in insertion
  order.  Data frames are objects: the entity set and every variable hold references
  into a heap, so that an in-place update is seen through every alias.
\<close>

record relationship =
  parent_dataframe :: string
  parent_column :: string
  child_dataframe :: string
  child_column :: string

type_synonym ref = nat

record heap =
  objs :: "ref \<Rightarrow> dataframe"
  next_ref :: ref

record entityset =
  dataframe_dict :: "(string \<times> ref) list"
  relationships :: "relationship list"

text \<open>\<open>entityset[name]\<close>: the data frame object of that name.\<close>

definition es_getitem :: "entityset \<Rightarrow> string \<Rightarrow> error + ref" where
  "es_getitem es name =
     (case map_of (dataframe_dict es) name of None \<Rightarrow> Inl KeyError | Some r \<Rightarrow> Inr r)"

text \<open>
  A data frame is well formed when every column has one cell per row label; pandas
  keeps every frame so.  \<open>insert_row\<close> is the frame with one more row at position
  \<open>k\<close>, labelled \<open>lbl\<close> and holding \<open>row n\<close> in column \<open>n\<close>.
\<close>

definition wf_df :: "dataframe \<Rightarrow> bool" where
  "wf_df df = list_all (\<lambda>(n, vs). length vs = length (index df)) (columns df)"

definition ins :: "nat \<Rightarrow> 'a \<Rightarrow> 'a list \<Rightarrow> 'a list" where
  "ins k x xs = take k xs @ x # drop k xs"

definition insert_row :: "nat \<Rightarrow> cell \<Rightarrow> (string \<Rightarrow> cell) \<Rightarrow> dataframe \<Rightarrow> dataframe" where
  "insert_row k lbl row df =
     \<lparr>index = ins k lbl (index df),
      columns = map (\<lambda>(n, vs). (n, ins k (row n) vs)) (columns df)\<rparr>"

section \<open>Records before the cutoff time\<close>






subsection \<open>Masks, insertion and the time filter\<close>


lemma select_map_filter: "select (map P xs) xs = filter P xs"
  by (induction xs) auto






lemma wf_df_getitem: "wf_df df \<Longrightarrow> getitem df n = Inr vs \<Longrightarrow> length vs = length (index df)"
  by (auto simp: wf_df_def getitem_def list_all_iff split: option.splits dest!: map_of_SomeD)

lemma column_names_insert_row [simp]: "column_names (insert_row k lbl row df) = column_names df"
  by (simp add: column_names_def insert_row_def comp_def case_prod_unfold)










lemma and_then_Inr: "and_then m f = Inr y \<Longrightarrow> \<exists>x. m = Inr x \<and> f x = Inr y"
  by (cases m) auto







section \<open>Removing uninterpretable features\<close>

text \<open>
  A feature descriptor; the pipeline reads only its name.
\<close>

record feature =
  get_name :: string
  primitive :: string

text \<open>
  Python's string operations: \<open>sub in s\<close> (substring test) and \<open>s.split(sep)[0]\<close>
  (the text before the first occurrence of \<open>sep\<close>, the whole of \<open>s\<close> when there is none).
\<close>

fun starts_with :: "string \<Rightarrow> string \<Rightarrow> bool" where
  "starts_with [] s = True"
| "starts_with (p # ps) [] = False"
| "starts_with (p # ps) (c # cs) = (p = c \<and> starts_with ps cs)"

fun contains :: "string \<Rightarrow> string \<Rightarrow> bool" where
  "contains sub [] = (sub = [])"
| "contains sub (c # cs) = (starts_with sub (c # cs) \<or> contains sub cs)"

fun split_head :: "string \<Rightarrow> string \<Rightarrow> string" where
  "split_head sep [] = []"
| "split_head sep (c # cs) = (if starts_with sep (c # cs) then [] else c # split_head sep cs)"

text \<open>\<open>df.pop(name)\<close> deletes the columns of that name, \<open>KeyError\<close> when there is none.\<close>

definition pop :: "dataframe \<Rightarrow> string \<Rightarrow> error + dataframe" where
  "pop df name =
     (if name \<in> set (column_names df)
      then Inr (df\<lparr>columns := filter (\<lambda>(n, vs). n \<noteq> name) (columns df)\<rparr>)
      else Inl KeyError)"

fun pop_all :: "string list \<Rightarrow> dataframe \<Rightarrow> error + dataframe" where
  "pop_all [] fm = Inr fm"
| "pop_all (column # cs) fm = and_then (pop fm column) (pop_all cs)"

definition where_prefix :: "dataframe \<Rightarrow> string list" where
  "where_prefix fm =
     map (split_head '' WHERE '') (filter (contains '' WHERE '') (column_names fm))"

definition uninterpretable :: "dataframe \<Rightarrow> string \<Rightarrow> bool" where
  "uninterpretable fm column =
     (list_ex (\<lambda>prefix. contains prefix column) (where_prefix fm)
      \<and> \<not> contains '' WHERE '' column)"

text \<open>
  \<open>Featurization.remove_uninterpretable_features\<close> of \<^verbatim>\<open>featurization/feature.py\<close>.
  The Python pops the columns from \<open>fm\<close> in place and returns it; the model returns the
  updated frame.
\<close>

definition remove_uninterpretable_features ::
  "dataframe \<Rightarrow> feature list \<Rightarrow> error + dataframe \<times> feature list" where
  "remove_uninterpretable_features fm fl =
     (let uninterpretable_cols = filter (uninterpretable fm) (column_names fm) in
      and_then (pop_all uninterpretable_cols fm) (\<lambda>fm'.
        Inr (fm', filter (\<lambda>f. get_name f \<in> set (column_names fm')) fl)))"

text \<open>Two example matrices: the spec's naming, and the naming \<open>dfs\<close> generates.\<close>

definition lab_fm :: dataframe where
  "lab_fm = \<lparr>index = [Num 1, Num 2],
            columns = [(''MEAN(LAB.VALUE)'', [Num 5, Num 6]),
                       (''MEAN(LAB.VALUE) WHERE ITEM=Glucose'', [Num 7, NaN]),
                       (''COUNT(LAB)'', [Num 2, Num 1])]\<rparr>"

definition lab_fl :: "feature list" where
  "lab_fl = [\<lparr>get_name = ''MEAN(LAB.VALUE)'', primitive = ''mean''\<rparr>,
            \<lparr>get_name = ''MEAN(LAB.VALUE) WHERE ITEM=Glucose'', primitive = ''mean''\<rparr>,
            \<lparr>get_name = ''COUNT(LAB)'', primitive = ''count''\<rparr>]"

definition dfs_fm :: dataframe where
  "dfs_fm = \<lparr>index = [Num 1],
            columns = [(''MEAN(LAB.VALUE)'', [Num 5]),
                       (''MEAN(LAB.VALUE WHERE ITEM = Glucose)'', [Num 7])]\<rparr>"

subsection \<open>What the string tests decide\<close>

lemma starts_with_iff: "starts_with p s \<longleftrightarrow> (\<exists>b. s = p @ b)"
  by (induction p s rule: starts_with.induct) auto

lemma contains_iff: "contains sub s \<longleftrightarrow> (\<exists>a b. s = a @ sub @ b)"
proof (induction s)
  case Nil
  then show ?case by auto
next
  case (Cons c cs)
  show ?case
  proof
    assume "contains sub (c # cs)"
    then consider "starts_with sub (c # cs)" | "contains sub cs" by auto
    then show "\<exists>a b. c # cs = a @ sub @ b"
    proof cases
      case 1
      then obtain b where "c # cs = sub @ b" by (auto simp: starts_with_iff)
      then have "c # cs = [] @ sub @ b" by simp
      then show ?thesis by blast
    next
      case 2
      then obtain a b where "cs = a @ sub @ b" using Cons by blast
      then have "c # cs = (c # a) @ sub @ b" by simp
      then show ?thesis by blast
    qed
  next
    assume "\<exists>a b. c # cs = a @ sub @ b"
    then obtain a b where ab: "c # cs = a @ sub @ b" by blast
    show "contains sub (c # cs)"
    proof (cases a)
      case Nil
      then have "\<exists>b. c # cs = sub @ b" using ab by auto
      then have "starts_with sub (c # cs)" by (simp only: starts_with_iff)
      then show ?thesis by simp
    next
      case (Cons x a')
      then have "cs = a' @ sub @ b" using ab by simp
      then show ?thesis using Cons.IH by auto
    qed
  qed
qed

lemma pop_all_distinct:
  "distinct us \<Longrightarrow> set us \<subseteq> set (column_names fm) \<Longrightarrow>
   pop_all us fm = Inr (fm\<lparr>columns := filter (\<lambda>(n, vs). n \<notin> set us) (columns fm)\<rparr>)"
proof (induction us arbitrary: fm)
  case Nil
  then show ?case by simp
next
  case (Cons u us)
  let ?fm = "fm\<lparr>columns := filter (\<lambda>(n, vs). n \<noteq> u) (columns fm)\<rparr>"
  have "set us \<subseteq> set (column_names ?fm)"
  proof
    fix x assume x: "x \<in> set us"
    then have "x \<noteq> u" using Cons.prems by auto
    moreover obtain vs where "(x, vs) \<in> set (columns fm)"
      using x Cons.prems by (auto simp: column_names_def)
    ultimately show "x \<in> set (column_names ?fm)"
      by (force simp: column_names_def)
  qed
  then have "pop_all us ?fm = Inr (?fm\<lparr>columns := filter (\<lambda>(n, vs). n \<notin> set us) (columns ?fm)\<rparr>)"
    using Cons.IH Cons.prems by simp
  moreover have "filter (\<lambda>(n, vs). n \<notin> set us) (filter (\<lambda>(n, vs). n \<noteq> u) (columns fm))
                 = filter (\<lambda>(n, vs). n \<notin> set (u # us)) (columns fm)"
    by (auto intro: filter_cong)
  ultimately show ?case using Cons.prems by (simp add: pop_def)
qed

lemma remove_uninterpretable_features_eq:
  assumes "distinct (column_names fm)"
  shows "remove_uninterpretable_features fm fl =
           Inr (fm\<lparr>columns := filter (\<lambda>(n, vs). \<not> uninterpretable fm n) (columns fm)\<rparr>,
                filter (\<lambda>f. get_name f \<in> set (column_names fm) \<and> \<not> uninterpretable fm (get_name f)) fl)"
proof -
  let ?us = "filter (uninterpretable fm) (column_names fm)"
  have "pop_all ?us fm = Inr (fm\<lparr>columns := filter (\<lambda>(n, vs). n \<notin> set ?us) (columns fm)\<rparr>)"
    using assms by (intro pop_all_distinct) auto
  moreover have "filter (\<lambda>(n, vs). n \<notin> set ?us) (columns fm)
                 = filter (\<lambda>(n, vs). \<not> uninterpretable fm n) (columns fm)"
    by (auto intro!: filter_cong simp: column_names_def rev_image_eqI)
  ultimately show ?thesis
    by (auto simp: remove_uninterpretable_features_def Let_def column_names_def
             intro!: filter_cong)
qed

lemma uninterpretable_iff:
  "uninterpretable fm c \<longleftrightarrow>
     \<not> contains '' WHERE '' c \<and>
     (\<exists>w \<in> set (column_names fm). contains '' WHERE '' w \<and>
        (\<exists>a b. c = a @ split_head '' WHERE '' w @ b))"
  by (auto simp: uninterpretable_def where_prefix_def list_ex_iff contains_iff)


lemma map_of_filter_key:
  "map_of (filter (\<lambda>(n, vs). P n) cs) c = (if P c then map_of cs c else None)"
  by (induction cs) auto

text \<open>
  Claim C8 (uninterpretable-feature pruning), as amended.  On a feature matrix with
  distinct column names the call succeeds, keeps the row index, and drops a column if
  and only if its name holds no \<open>WHERE\<close> clause and the text before the \<open>WHERE\<close> clause of
  some filtered column occurs somewhere inside its name; the surviving columns keep
  their cells, and the descriptor list keeps exactly the descriptors named by a
  surviving column.
\<close>

theorem pruning_by_where_prefix:
  assumes "distinct (column_names fm)"
  shows "\<exists>fm' fl'. remove_uninterpretable_features fm fl = Inr (fm', fl')
     \<and> index fm' = index fm
     \<and> (\<forall>c. c \<in> set (column_names fm') \<longleftrightarrow>
            c \<in> set (column_names fm) \<and>
            \<not> (\<not> contains '' WHERE '' c \<and>
               (\<exists>w \<in> set (column_names fm). contains '' WHERE '' w \<and>
                  (\<exists>a b. c = a @ split_head '' WHERE '' w @ b))))
     \<and> (\<forall>c \<in> set (column_names fm'). getitem fm' c = getitem fm c)
     \<and> fl' = filter (\<lambda>f. get_name f \<in> set (column_names fm')) fl"
proof -
  let ?fm' = "fm\<lparr>columns := filter (\<lambda>(n, vs). \<not> uninterpretable fm n) (columns fm)\<rparr>"
  have names: "set (column_names ?fm') = {c \<in> set (column_names fm). \<not> uninterpretable fm c}"
    by (force simp: column_names_def)
  have "remove_uninterpretable_features fm fl =
          Inr (?fm', filter (\<lambda>f. get_name f \<in> set (column_names ?fm')) fl)"
    using remove_uninterpretable_features_eq [OF assms, of fl] names by (auto intro!: filter_cong)
  moreover have "index ?fm' = index fm" by simp
  moreover have "\<forall>c. c \<in> set (column_names ?fm') \<longleftrightarrow>
            c \<in> set (column_names fm) \<and>
            \<not> (\<not> contains '' WHERE '' c \<and>
               (\<exists>w \<in> set (column_names fm). contains '' WHERE '' w \<and>
                  (\<exists>a b. c = a @ split_head '' WHERE '' w @ b)))"
    unfolding names using uninterpretable_iff [of fm] by blast
  moreover have "\<forall>c \<in> set (column_names ?fm'). getitem ?fm' c = getitem fm c"
    unfolding names by (simp add: getitem_def map_of_filter_key)
  ultimately show ?thesis by blast
qed

theorem pruning_by_where_prefix_witness:
  "distinct (column_names lab_fm)
   \<and> remove_uninterpretable_features lab_fm lab_fl =
       Inr (\<lparr>index = [Num 1, Num 2],
             columns = [(''MEAN(LAB.VALUE) WHERE ITEM=Glucose'', [Num 7, NaN]),
                        (''COUNT(LAB)'', [Num 2, Num 1])]\<rparr>,
            [\<lparr>get_name = ''MEAN(LAB.VALUE) WHERE ITEM=Glucose'', primitive = ''mean''\<rparr>,
             \<lparr>get_name = ''COUNT(LAB)'', primitive = ''count''\<rparr>])"
proof -
  have d: "distinct (column_names lab_fm)"
    by (simp add: lab_fm_def column_names_def)
  have "remove_uninterpretable_features lab_fm lab_fl =
       Inr (\<lparr>index = [Num 1, Num 2],
             columns = [(''MEAN(LAB.VALUE) WHERE ITEM=Glucose'', [Num 7, NaN]),
                        (''COUNT(LAB)'', [Num 2, Num 1])]\<rparr>,
            [\<lparr>get_name = ''MEAN(LAB.VALUE) WHERE ITEM=Glucose'', primitive = ''mean''\<rparr>,
             \<lparr>get_name = ''COUNT(LAB)'', primitive = ''count''\<rparr>])"
    by (simp add: remove_uninterpretable_features_def Let_def lab_fm_def lab_fl_def
          column_names_def uninterpretable_def where_prefix_def pop_def)
  with d pruning_by_where_prefix [OF d, of lab_fl] show ?thesis by simp
qed

text \<open>
  The claim as stated asks for the dropped name to be a prefix of a filtered name.  With
  the names \<open>dfs\<close> generates the unfiltered column is dropped although it is no prefix of
  the filtered one.
\<close>

theorem pruning_prefix_counterexample:
  "remove_uninterpretable_features dfs_fm [] =
     Inr (\<lparr>index = [Num 1],
           columns = [(''MEAN(LAB.VALUE WHERE ITEM = Glucose)'', [Num 7])]\<rparr>, [])
   \<and> \<not> starts_with ''MEAN(LAB.VALUE)'' ''MEAN(LAB.VALUE WHERE ITEM = Glucose)''"
  by (simp add: remove_uninterpretable_features_def Let_def dfs_fm_def
        column_names_def uninterpretable_def where_prefix_def pop_def)

section \<open>Path resolution\<close>

text \<open>
  The two featuretools queries \<open>find_path\<close> uses, read off the relationship list in
  insertion order: the children of a data frame (\<open>get_backward_dataframes\<close>) and its
  parents (\<open>get_forward_dataframes\<close>).  The names are those of the direct relationships;
  a name the entity set does not know has none.
\<close>

definition get_backward_dataframes :: "entityset \<Rightarrow> string \<Rightarrow> string list" where
  "get_backward_dataframes es name =
     map child_dataframe (filter (\<lambda>r. parent_dataframe r = name) (relationships es))"

definition get_forward_dataframes :: "entityset \<Rightarrow> string \<Rightarrow> string list" where
  "get_forward_dataframes es name =
     map parent_dataframe (filter (\<lambda>r. child_dataframe r = name) (relationships es))"

definition child_nodes :: "entityset \<Rightarrow> string \<Rightarrow> string list" where
  "child_nodes es parent_node =
     get_backward_dataframes es parent_node @ get_forward_dataframes es parent_node"

text \<open>
  \<open>parent_dict\<close> maps a discovered entity to the entity it was discovered from
  (\<open>None\<close> for the target).  \<open>discover\<close> is the inner \<open>for child in child_nodes\<close> loop.
\<close>

type_synonym parent_dict = "string \<rightharpoonup> string option"

fun discover ::
  "string \<Rightarrow> string list \<Rightarrow> parent_dict \<times> string list \<Rightarrow> parent_dict \<times> string list" where
  "discover parent_node [] (pd, pipe) = (pd, pipe)"
| "discover parent_node (child # cs) (pd, pipe) =
     (if pd child \<noteq> None then discover parent_node cs (pd, pipe)
      else discover parent_node cs (pd(child \<mapsto> Some parent_node), pipe @ [child]))"

definition nodes :: "entityset \<Rightarrow> string set" where
  "nodes es = parent_dataframe ` set (relationships es) \<union> child_dataframe ` set (relationships es)"

lemma child_nodes_subset: "set (child_nodes es n) \<subseteq> nodes es"
  by (auto simp: child_nodes_def get_backward_dataframes_def get_forward_dataframes_def nodes_def)

lemma discover_measure:
  assumes "finite N" "set cs \<subseteq> N" "discover p cs (pd, pipe) = (pd', pipe')"
  shows "2 * card (N - dom pd') + length pipe' \<le> 2 * card (N - dom pd) + length pipe"
  using assms(2,3)
proof (induction cs arbitrary: pd pipe)
  case Nil
  then show ?case by simp
next
  case (Cons c cs)
  show ?case
  proof (cases "pd c \<noteq> None")
    case True
    then show ?thesis using Cons by simp
  next
    case False
    then have c: "c \<in> N - dom pd" using Cons.prems by (auto simp: dom_def)
    have d: "discover p cs (pd(c \<mapsto> Some p), pipe @ [c]) = (pd', pipe')"
      using Cons.prems False by simp
    have sub: "set cs \<subseteq> N" using Cons.prems by simp
    have "N - insert c (dom pd) = (N - dom pd) - {c}" by auto
    then have eq: "card (N - insert c (dom pd)) = card (N - dom pd) - 1"
      using c assms(1) by (simp add: card_Diff_singleton)
    have pos: "0 < card (N - dom pd)"
      using c assms(1) by (metis card_gt_0_iff empty_iff finite_Diff)
    have dm: "dom (pd(c \<mapsto> Some p)) = insert c (dom pd)" by simp
    have ih: "2 * card (N - dom pd') + length pipe'
                \<le> 2 * card (N - dom (pd(c \<mapsto> Some p))) + length (pipe @ [c])"
      using Cons.IH [OF sub d] .
    show ?thesis using eq pos ih [unfolded dm] by simp
  qed
qed

text \<open>
  The search loop of \<open>find_path\<close>: \<open>nodes_pipe.pop()\<close> takes the entity pushed last.
\<close>

function search :: "entityset \<Rightarrow> string \<Rightarrow> string list \<Rightarrow> parent_dict \<Rightarrow> parent_dict" where
  "search es source_entity nodes_pipe parent_dict =
     (if nodes_pipe = [] then parent_dict
      else let parent_node = last nodes_pipe in
        if parent_node = source_entity then parent_dict
        else case discover parent_node (child_nodes es parent_node)
                    (parent_dict, butlast nodes_pipe) of
               (pd, pipe) \<Rightarrow> search es source_entity pipe pd)"
  by pat_completeness auto
termination
proof (relation "measure (\<lambda>(es, s, pipe, pd). 2 * card (nodes es - dom pd) + length pipe)",
       goal_cases)
  case 1
  then show ?case by simp
next
  case (2 es source_entity nodes_pipe parent_dict x xa y)
  have fin: "finite (nodes es)" by (simp add: nodes_def)
  have "discover x (child_nodes es x) (parent_dict, butlast nodes_pipe) = (xa, y)"
    using 2 by simp
  from discover_measure [OF fin child_nodes_subset this]
  have "2 * card (nodes es - dom xa) + length y
          \<le> 2 * card (nodes es - dom parent_dict) + length (butlast nodes_pipe)" .
  moreover have "length (butlast nodes_pipe) < length nodes_pipe" using 2 by simp
  ultimately show ?case by simp
qed

text \<open>
  The second loop walks the parent pointers from the source entity; \<open>None\<close> as a result
  stands for a walk that never ends.
\<close>

partial_function (option) walk ::
  "parent_dict \<Rightarrow> string \<Rightarrow> string \<Rightarrow> string list list \<Rightarrow> (error + string list list) option"
where
  "walk parent_dict target_entity node paths =
     (if node = target_entity then Some (Inr paths)
      else case parent_dict node of
             None \<Rightarrow> Some (Inl KeyError)
           | Some None \<Rightarrow> Some (Inl KeyError)
           | Some (Some p) \<Rightarrow> walk parent_dict target_entity p (paths @ [last paths @ [p]]))"

declare walk.simps [code]

definition find_path ::
  "entityset \<Rightarrow> string \<Rightarrow> string \<Rightarrow> (error + string list list) option" where
  "find_path es source_entity target_entity =
     walk (search es source_entity [target_entity] [target_entity \<mapsto> None])
       target_entity source_entity [[source_entity]]"

definition rel :: "string \<Rightarrow> string \<Rightarrow> relationship" where
  "rel p c = \<lparr>parent_dataframe = p, parent_column = ''ID'', child_dataframe = c, child_column = p @ ''_ID''\<rparr>"

definition clinic_es :: entityset where
  "clinic_es = \<lparr>dataframe_dict = [],
     relationships = [rel ''PATIENTS'' ''ADMISSIONS'', rel ''ADMISSIONS'' ''LABEVENTS'',
                      rel ''D_ITEMS'' ''CHARTEVENTS'']\<rparr>"

definition ring_es :: entityset where
  "ring_es = \<lparr>dataframe_dict = [],
     relationships = [rel ''T'' ''A'', rel ''T'' ''B'', rel ''B'' ''C'', rel ''C'' ''S'', rel ''A'' ''S'']\<rparr>"

declare search.simps [simp del]

text \<open>
  The undirected relationship graph: two entities are linked when a relationship joins
  them, in either direction; \<open>reachable\<close> is reachability along links, and \<open>is_path\<close>
  holds of a non-empty list of entities from the first to the second entity given in
  which consecutive entities are linked.  \<open>chain_to\<close> follows parent pointers from an
  entity up to the target.
\<close>

definition linked :: "entityset \<Rightarrow> string \<Rightarrow> string \<Rightarrow> bool" where
  "linked es a b =
     (\<exists>r \<in> set (relationships es).
        (parent_dataframe r = a \<and> child_dataframe r = b) \<or>
        (child_dataframe r = a \<and> parent_dataframe r = b))"

definition reachable :: "entityset \<Rightarrow> string \<Rightarrow> string \<Rightarrow> bool" where
  "reachable es a b = (linked es)\<^sup>*\<^sup>* a b"

definition is_path :: "entityset \<Rightarrow> string \<Rightarrow> string \<Rightarrow> string list \<Rightarrow> bool" where
  "is_path es a b w = (w \<noteq> [] \<and> hd w = a \<and> last w = b \<and> successively (linked es) w)"

inductive chain_to :: "parent_dict \<Rightarrow> string \<Rightarrow> string \<Rightarrow> string list \<Rightarrow> bool"
  for pd :: parent_dict and t :: string where
  chain_target: "chain_to pd t t [t]"
| chain_step: "n \<noteq> t \<Longrightarrow> pd n = Some (Some p) \<Longrightarrow> chain_to pd t p ps \<Longrightarrow> chain_to pd t n (n # ps)"

definition pd_ok :: "entityset \<Rightarrow> string \<Rightarrow> parent_dict \<Rightarrow> bool" where
  "pd_ok es t pd =
     (pd t = Some None
      \<and> (\<forall>n. pd n \<noteq> None \<longrightarrow>
            (\<exists>ps. chain_to pd t n ps \<and> distinct ps) \<and> reachable es t n)
      \<and> (\<forall>n p. pd n = Some (Some p) \<longrightarrow> linked es p n))"

definition front :: "entityset \<Rightarrow> parent_dict \<Rightarrow> string list \<Rightarrow> bool" where
  "front es pd pipe =
     (\<forall>n. pd n \<noteq> None \<longrightarrow> n \<in> set pipe \<or> (\<forall>m. linked es n m \<longrightarrow> pd m \<noteq> None))"

subsection \<open>The search discovers exactly the reachable entities\<close>

lemma child_nodes_linked: "n \<in> set (child_nodes es p) \<longleftrightarrow> linked es p n"
  by (auto simp: child_nodes_def get_backward_dataframes_def get_forward_dataframes_def linked_def)

lemma linked_sym: "linked es a b \<Longrightarrow> linked es b a"
  by (auto simp: linked_def)

lemma discover_result:
  "discover p cs (pd, pipe) = (pd', pipe') \<Longrightarrow>
     (\<forall>n. pd' n = (if pd n = None \<and> n \<in> set cs then Some (Some p) else pd n))
     \<and> set pipe' = set pipe \<union> {n \<in> set cs. pd n = None}"
proof (induction cs arbitrary: pd pipe)
  case Nil
  then show ?case by simp
next
  case (Cons c cs)
  show ?case
  proof (cases "pd c = None")
    case False
    then have "discover p cs (pd, pipe) = (pd', pipe')" using Cons.prems by simp
    from Cons.IH [OF this] False show ?thesis by auto
  next
    case True
    then have "discover p cs (pd(c \<mapsto> Some p), pipe @ [c]) = (pd', pipe')"
      using Cons.prems by simp
    from Cons.IH [OF this] True show ?thesis by auto
  qed
qed

lemma chain_to_mono:
  "chain_to pd t n ps \<Longrightarrow> (\<And>m v. pd m = Some v \<Longrightarrow> pd' m = Some v) \<Longrightarrow> chain_to pd' t n ps"
  by (induction rule: chain_to.induct) (auto intro: chain_to.intros)

lemma chain_to_dom: "chain_to pd t n ps \<Longrightarrow> pd t \<noteq> None \<Longrightarrow> set ps \<subseteq> dom pd"
  by (induction rule: chain_to.induct) auto

lemma search_Nil: "search es s [] pd = pd"
  by (subst search.simps) simp

lemma search_hit: "pipe \<noteq> [] \<Longrightarrow> last pipe = s \<Longrightarrow> search es s pipe pd = pd"
  by (subst search.simps) simp

lemma search_step:
  "pipe \<noteq> [] \<Longrightarrow> last pipe \<noteq> s \<Longrightarrow>
   discover (last pipe) (child_nodes es (last pipe)) (pd, butlast pipe) = (pd', pipe') \<Longrightarrow>
   search es s pipe pd = search es s pipe' pd'"
  by (subst search.simps) (simp add: Let_def)

lemma step_preserves:
  assumes ok: "pd_ok es t pd" and sub: "set pipe \<subseteq> dom pd" and fr: "front es pd pipe"
    and ne: "pipe \<noteq> []"
    and d: "discover (last pipe) (child_nodes es (last pipe)) (pd, butlast pipe) = (pd', pipe')"
  shows "pd_ok es t pd' \<and> set pipe' \<subseteq> dom pd' \<and> front es pd' pipe'"
proof -
  let ?p = "last pipe"
  from discover_result [OF d]
  have pd': "\<And>n. pd' n = (if pd n = None \<and> linked es ?p n then Some (Some ?p) else pd n)"
    and pipe': "set pipe' = set (butlast pipe) \<union> {n. linked es ?p n \<and> pd n = None}"
    by (auto simp: child_nodes_linked)
  have "?p \<in> set pipe" using ne by simp
  then have p_in: "pd ?p \<noteq> None" using sub by blast
  then obtain qs where qs: "chain_to pd t ?p qs" and dq: "distinct qs"
    and pc: "reachable es t ?p"
    using ok by (auto simp: pd_ok_def)
  have mono: "\<And>m v. pd m = Some v \<Longrightarrow> pd' m = Some v" by (simp add: pd')
  have t: "pd t = Some None" using ok by (simp add: pd_ok_def)
  have "pd_ok es t pd'"
    unfolding pd_ok_def
  proof (intro conjI allI impI)
    show "pd' t = Some None" using t by (simp add: pd')
  next
    fix n assume n: "pd' n \<noteq> None"
    show "\<exists>ps. chain_to pd' t n ps \<and> distinct ps"
    proof (cases "pd n = None")
      case False
      then obtain ps where "chain_to pd t n ps" "distinct ps"
        using ok by (auto simp: pd_ok_def)
      then show ?thesis using chain_to_mono mono by blast
    next
      case True
      then have l: "linked es ?p n" and v: "pd' n = Some (Some ?p)"
        using n by (auto simp: pd' split: if_splits)
      have "n \<noteq> t" using True t by auto
      moreover have "chain_to pd' t ?p qs" using chain_to_mono [OF qs] mono by blast
      ultimately have "chain_to pd' t n (n # qs)" using v chain_step by blast
      moreover have "set qs \<subseteq> dom pd" using chain_to_dom [OF qs] t by simp
      then have "n \<notin> set qs" using True by auto
      ultimately show ?thesis using dq by (intro exI [of _ "n # qs"]) simp
    qed
  next
    fix n assume n: "pd' n \<noteq> None"
    show "reachable es t n"
    proof (cases "pd n = None")
      case False
      then show ?thesis using ok by (auto simp: pd_ok_def)
    next
      case True
      then have "linked es ?p n" using n by (auto simp: pd' split: if_splits)
      then show ?thesis using pc by (auto simp: reachable_def)
    qed
  next
    fix n p assume "pd' n = Some (Some p)"
    then show "linked es p n"
      using ok by (auto simp: pd' pd_ok_def split: if_splits)
  qed
  moreover have "set pipe' \<subseteq> dom pd'"
  proof
    fix n assume "n \<in> set pipe'"
    then consider "n \<in> set (butlast pipe)" | "linked es ?p n" "pd n = None"
      using pipe' by auto
    then show "n \<in> dom pd'"
    proof cases
      case 1
      then have "n \<in> set pipe" by (rule in_set_butlastD)
      then have "pd n \<noteq> None" using sub by (auto simp: dom_def)
      then show ?thesis by (auto simp: pd' dom_def)
    next
      case 2
      then show ?thesis by (auto simp: pd' dom_def)
    qed
  qed
  moreover have "front es pd' pipe'"
    unfolding front_def
  proof (intro allI impI)
    fix n assume n: "pd' n \<noteq> None"
    show "n \<in> set pipe' \<or> (\<forall>m. linked es n m \<longrightarrow> pd' m \<noteq> None)"
    proof (cases "pd n = None")
      case True
      then have "linked es ?p n" using n by (auto simp: pd' split: if_splits)
      then show ?thesis using True pipe' by auto
    next
      case False
      note old = this
      show ?thesis
      proof (cases "n = ?p")
        case True
        then have "\<forall>m. linked es n m \<longrightarrow> pd' m \<noteq> None" by (auto simp: pd')
        then show ?thesis ..
      next
        case False
        from fr old consider "n \<in> set pipe" | "\<forall>m. linked es n m \<longrightarrow> pd m \<noteq> None"
          by (auto simp: front_def)
        then show ?thesis
        proof cases
          case 1
          then have "n \<in> set (butlast pipe)"
            using False ne by (metis append_butlast_last_id in_set_conv_decomp rotate1.simps(2) set_ConsD set_rotate1)
          then show ?thesis using pipe' by auto
        next
          case 2
          then have "\<forall>m. linked es n m \<longrightarrow> pd' m \<noteq> None" by (auto simp: pd')
          then show ?thesis ..
        qed
      qed
    qed
  qed
  ultimately show ?thesis by blast
qed


lemma search_ok:
  "pd_ok es t pd \<Longrightarrow> set pipe \<subseteq> dom pd \<Longrightarrow> front es pd pipe \<Longrightarrow>
   pd_ok es t (search es s pipe pd)
   \<and> (search es s pipe pd s \<noteq> None \<or> front es (search es s pipe pd) [])"
proof (induction es s pipe pd rule: search.induct)
  case (1 es s pipe pd)
  show ?case
  proof (cases "pipe = []")
    case True
    then show ?thesis using 1 by (simp add: search_Nil)
  next
    case False
    note ne = this
    show ?thesis
    proof (cases "last pipe = s")
      case True
      have "last pipe \<in> set pipe" using ne by simp
      then have "pd s \<noteq> None" using True 1(3) by blast
      then show ?thesis using 1 ne True by (simp add: search_hit)
    next
      case False
      obtain pd' pipe' where
        d: "discover (last pipe) (child_nodes es (last pipe)) (pd, butlast pipe) = (pd', pipe')"
        by (cases "discover (last pipe) (child_nodes es (last pipe)) (pd, butlast pipe)")
      from step_preserves [OF "1.prems"(1,2,3) ne d]
      have "pd_ok es t pd'" "set pipe' \<subseteq> dom pd'" "front es pd' pipe'" by auto
      from "1.IH" [OF ne refl False d [symmetric] this]
      show ?thesis using search_step [OF ne False d] by simp
    qed
  qed
qed

lemma closed_reachable:
  assumes "reachable es t n" and "pd t \<noteq> None" and "front es pd []"
  shows "pd n \<noteq> None"
  using assms(1) unfolding reachable_def
proof (induction rule: rtranclp_induct)
  case base
  then show ?case using assms(2) .
next
  case (step y z)
  then show ?case using assms(3) by (auto simp: front_def)
qed

lemma search_result:
  defines "R \<equiv> \<lambda>es s t. search es s [t] [t \<mapsto> None]"
  shows "pd_ok es t (R es s t) \<and> (R es s t s \<noteq> None \<longleftrightarrow> reachable es t s)"
proof -
  let ?pd = "[t \<mapsto> None] :: parent_dict"
  have ok0: "pd_ok es t ?pd"
    by (auto simp: pd_ok_def reachable_def intro: chain_target)
  have "set [t] \<subseteq> dom ?pd" by simp
  moreover have "front es ?pd [t]" by (simp add: front_def)
  ultimately have ok: "pd_ok es t (R es s t)"
    and alt: "R es s t s \<noteq> None \<or> front es (R es s t) []"
    using search_ok [OF ok0, of "[t]" s] by (auto simp: R_def)
  have "R es s t s \<noteq> None" if "reachable es t s"
  proof (rule ccontr)
    assume "\<not> R es s t s \<noteq> None"
    then have "front es (R es s t) []" using alt by blast
    moreover have "R es s t t \<noteq> None" using ok by (simp add: pd_ok_def)
    ultimately have "R es s t s \<noteq> None" using closed_reachable [OF that] by blast
    then show False using \<open>\<not> R es s t s \<noteq> None\<close> by blast
  qed
  moreover have "reachable es t s" if "R es s t s \<noteq> None"
    using ok that by (auto simp: pd_ok_def)
  ultimately show ?thesis using ok by blast
qed

subsection \<open>Walking the parent pointers\<close>

lemma walk_chain:
  "chain_to pd t n ps \<Longrightarrow> Q \<noteq> [] \<Longrightarrow>
   \<exists>R. walk pd t n Q = Some (Inr R) \<and> R \<noteq> [] \<and> last R = last Q @ tl ps"
proof (induction arbitrary: Q rule: chain_to.induct)
  case chain_target
  then show ?case by (subst walk.simps) simp
next
  case (chain_step n p ps)
  have "Q @ [last Q @ [p]] \<noteq> []" by simp
  from chain_step.IH [OF this] obtain R where
    R: "walk pd t p (Q @ [last Q @ [p]]) = Some (Inr R)" "R \<noteq> []"
       "last R = last (Q @ [last Q @ [p]]) @ tl ps" by blast
  have "ps \<noteq> [] \<and> hd ps = p" using chain_step.hyps(3) by (cases rule: chain_to.cases) auto
  then have "last R = last Q @ tl (n # ps)" using R(3) by (cases ps) auto
  moreover have "walk pd t n Q = walk pd t p (Q @ [last Q @ [p]])"
    using chain_step.hyps(1,2) by (subst walk.simps) simp
  ultimately show ?case using R by auto
qed

lemma chain_to_shape:
  "chain_to pd t n ps \<Longrightarrow>
     ps \<noteq> [] \<and> hd ps = n \<and> last ps = t \<and> successively (\<lambda>a b. pd a = Some (Some b)) ps"
proof (induction rule: chain_to.induct)
  case chain_target
  then show ?case by simp
next
  case (chain_step n p ps)
  then show ?case by (cases ps) auto
qed

lemma find_path_reachable:
  assumes "reachable es t s"
  shows "\<exists>paths. find_path es s t = Some (Inr paths) \<and> paths \<noteq> []
           \<and> hd (last paths) = s \<and> last (last paths) = t
           \<and> successively (linked es) (last paths) \<and> distinct (last paths)
           \<and> last paths \<noteq> []"
proof -
  let ?R = "search es s [t] [t \<mapsto> None]"
  from search_result [of es t s] assms
  have ok: "pd_ok es t ?R" and s: "?R s \<noteq> None" by auto
  then obtain ps where ps: "chain_to ?R t s ps" and dps: "distinct ps"
    by (auto simp: pd_ok_def)
  from walk_chain [OF ps, of "[[s]]"] obtain paths where
    w: "walk ?R t s [[s]] = Some (Inr paths)" "paths \<noteq> []" "last paths = [s] @ tl ps" by auto
  from chain_to_shape [OF ps]
  have sh: "ps \<noteq> []" "hd ps = s" "last ps = t" "successively (\<lambda>a b. ?R a = Some (Some b)) ps"
    by auto
  then have eq: "last paths = ps" using w(3) by (cases ps) auto
  have "successively (linked es) ps"
    using sh(4)
  proof (rule successively_mono)
    fix a b assume "?R a = Some (Some b)"
    then have "linked es b a" using ok by (simp add: pd_ok_def)
    then show "linked es a b" by (rule linked_sym)
  qed
  then show ?thesis using w sh eq dps by (auto simp: find_path_def)
qed

lemma find_path_unreachable:
  assumes "\<not> reachable es t s"
  shows "find_path es s t = Some (Inl KeyError)"
proof -
  let ?R = "search es s [t] [t \<mapsto> None]"
  from search_result [of es t s] assms have "?R s = None" by auto
  moreover have "s \<noteq> t" using assms by (auto simp: reachable_def)
  ultimately show ?thesis
    unfolding find_path_def by (subst walk.simps) simp
qed

lemma find_path_same: "find_path es s s = Some (Inr [[s]])"
  unfolding find_path_def by (subst walk.simps) simp

lemma reachable_nodes: "reachable es a b \<Longrightarrow> a \<noteq> b \<Longrightarrow> a \<in> nodes es \<and> b \<in> nodes es"
  unfolding reachable_def
proof (induction rule: rtranclp_induct)
  case base
  then show ?case by simp
next
  case (step y z)
  have yz: "y \<in> nodes es \<and> z \<in> nodes es"
    using step.hyps(2) by (auto simp: linked_def nodes_def)
  then show ?case using step by (cases "a = y") auto
qed


lemma reachable_closed:
  assumes "reachable es a b" and "a \<in> S" and "\<And>x y. x \<in> S \<Longrightarrow> linked es x y \<Longrightarrow> y \<in> S"
  shows "b \<in> S"
  using assms(1) unfolding reachable_def
  by (induction rule: rtranclp_induct) (auto intro: assms)

lemma linked_reachable: "linked es a b \<Longrightarrow> reachable es b c \<Longrightarrow> reachable es a c"
  by (simp add: reachable_def)

lemma reachable_refl: "reachable es a a"
  by (simp add: reachable_def)

text \<open>
  Claim C9 (failure modes of path resolution).  When the source entity cannot be reached
  from the target entity along relationships, in particular when one of the two names
  takes part in no relationship (as a name unknown to the graph does) and the names
  differ, \<open>find_path\<close> raises: the lookup \<open>parent_dict[node]\<close> fails with \<open>KeyError\<close>, which
  is the code's form of the spec's \<open>NoPathError\<close>.  When source and target are the same
  entity it returns the single one-element path.
\<close>

theorem find_path_failure_modes:
  "(\<not> reachable es target_entity source_entity \<longrightarrow>
      find_path es source_entity target_entity = Some (Inl KeyError))
   \<and> (source_entity \<noteq> target_entity \<and>
        (source_entity \<notin> nodes es \<or> target_entity \<notin> nodes es) \<longrightarrow>
      find_path es source_entity target_entity = Some (Inl KeyError))
   \<and> find_path es source_entity source_entity = Some (Inr [[source_entity]])"
proof (intro conjI impI)
  assume "\<not> reachable es target_entity source_entity"
  then show "find_path es source_entity target_entity = Some (Inl KeyError)"
    by (rule find_path_unreachable)
next
  assume a: "source_entity \<noteq> target_entity \<and>
        (source_entity \<notin> nodes es \<or> target_entity \<notin> nodes es)"
  then have "\<not> reachable es target_entity source_entity"
    using reachable_nodes [of es target_entity source_entity] by auto
  then show "find_path es source_entity target_entity = Some (Inl KeyError)"
    by (rule find_path_unreachable)
next
  show "find_path es source_entity source_entity = Some (Inr [[source_entity]])"
    by (rule find_path_same)
qed

theorem find_path_failure_modes_witness:
  "\<not> reachable clinic_es ''PATIENTS'' ''CHARTEVENTS''
   \<and> find_path clinic_es ''CHARTEVENTS'' ''PATIENTS'' = Some (Inl KeyError)
   \<and> ''NOTES'' \<noteq> ''PATIENTS'' \<and> ''NOTES'' \<notin> nodes clinic_es
   \<and> find_path clinic_es ''NOTES'' ''PATIENTS'' = Some (Inl KeyError)
   \<and> find_path clinic_es ''PATIENTS'' ''NOTES'' = Some (Inl KeyError)
   \<and> find_path clinic_es ''PATIENTS'' ''PATIENTS'' = Some (Inr [[''PATIENTS'']])"
proof -
  have a: "\<not> reachable clinic_es ''PATIENTS'' ''CHARTEVENTS''"
  proof
    assume "reachable clinic_es ''PATIENTS'' ''CHARTEVENTS''"
    then have "''CHARTEVENTS'' \<in> {''PATIENTS'', ''ADMISSIONS'', ''LABEVENTS''}"
      by (rule reachable_closed) (auto simp: linked_def clinic_es_def rel_def)
    then show False by simp
  qed
  have b: "''NOTES'' \<noteq> ''PATIENTS''" "''NOTES'' \<notin> nodes clinic_es"
    by (simp_all add: nodes_def clinic_es_def rel_def)
  show ?thesis
    using a b find_path_failure_modes [of clinic_es "''PATIENTS''" "''CHARTEVENTS''"]
      find_path_failure_modes [of clinic_es "''PATIENTS''" "''NOTES''"]
      find_path_failure_modes [of clinic_es "''NOTES''" "''PATIENTS''"]
    by simp
qed

subsection \<open>Simple paths and the order of the search\<close>

lemma simple_subpath:
  "successively R (a # w) \<Longrightarrow>
   \<exists>w'. w' \<noteq> [] \<and> hd w' = a \<and> last w' = last (a # w) \<and> successively R w' \<and> distinct w'
      \<and> length w' \<le> length (a # w)"
proof (induction w arbitrary: a)
  case Nil
  show ?case by (rule exI [of _ "[a]"]) simp
next
  case (Cons b w)
  then have ab: "R a b" and bw: "successively R (b # w)" by simp_all
  from Cons.IH [OF bw] obtain w' where
    w': "w' \<noteq> []" "hd w' = b" "last w' = last (b # w)" "successively R w'" "distinct w'"
        "length w' \<le> length (b # w)" by blast
  show ?case
  proof (cases "a \<in> set w'")
    case False
    have "successively R (a # w')" using w'(1,2,4) ab by (cases w') auto
    then show ?thesis using w' False by (intro exI [of _ "a # w'"]) simp
  next
    case True
    then obtain ys zs where s: "w' = ys @ a # zs" by (meson split_list)
    have "successively R (a # zs)" using w'(4) unfolding s by (simp add: successively_append_iff)
    moreover have "distinct (a # zs)" using w'(5) unfolding s by simp
    moreover have "last (a # zs) = last (a # b # w)" using w'(3) unfolding s by simp
    moreover have "length (a # zs) \<le> length (a # b # w)" using w'(6) unfolding s by simp
    ultimately show ?thesis by (intro exI [of _ "a # zs"]) simp
  qed
qed

lemma is_path_simple:
  assumes "is_path es a b w"
  shows "\<exists>w'. is_path es a b w' \<and> distinct w' \<and> length w' \<le> length w"
proof -
  from assms obtain v where w: "w = a # v" by (cases w) (auto simp: is_path_def)
  have "successively (linked es) (a # v)" using assms w by (simp add: is_path_def)
  from simple_subpath [OF this] show ?thesis using assms unfolding w is_path_def by auto
qed

lemma remdups_snoc: "remdups (xs @ [c]) = filter (\<lambda>x. x \<noteq> c) (remdups xs) @ [c]"
  by (induction xs) auto

lemma first_occurrences_Cons:
  "rev (remdups (rev (c # cs))) = c # filter (\<lambda>x. x \<noteq> c) (rev (remdups (rev cs)))"
  by (simp add: remdups_snoc rev_filter)

lemma discover_fresh:
  "discover p cs (pd, pipe) =
     (\<lambda>c. if pd c = None \<and> c \<in> set cs then Some (Some p) else pd c,
      pipe @ filter (\<lambda>c. pd c = None) (rev (remdups (rev cs))))"
proof (induction cs arbitrary: pd pipe)
  case Nil
  show ?case by simp
next
  case (Cons c cs)
  show ?case
  proof (cases "pd c = None")
    case False
    have "filter (\<lambda>x. pd x = None) (filter (\<lambda>x. x \<noteq> c) (rev (remdups (rev cs))))
            = filter (\<lambda>x. pd x = None) (rev (remdups (rev cs)))"
      using False by (auto intro: filter_cong)
    moreover have "(\<lambda>x. if pd x = None \<and> x \<in> set cs then Some (Some p) else pd x)
            = (\<lambda>x. if pd x = None \<and> x \<in> set (c # cs) then Some (Some p) else pd x)"
      using False by (auto simp: fun_eq_iff)
    ultimately show ?thesis
      using False by (simp only: first_occurrences_Cons discover.simps Cons.IH) simp
  next
    case True
    have "filter (\<lambda>x. (pd(c \<mapsto> Some p)) x = None) (rev (remdups (rev cs)))
            = filter (\<lambda>x. pd x = None) (filter (\<lambda>x. x \<noteq> c) (rev (remdups (rev cs))))"
      by (auto intro: filter_cong)
    moreover have "(\<lambda>x. if (pd(c \<mapsto> Some p)) x = None \<and> x \<in> set cs then Some (Some p)
                         else (pd(c \<mapsto> Some p)) x)
            = (\<lambda>x. if pd x = None \<and> x \<in> set (c # cs) then Some (Some p) else pd x)"
      using True by (auto simp: fun_eq_iff)
    ultimately show ?thesis
      using True by (simp only: first_occurrences_Cons discover.simps Cons.IH) simp
  qed
qed

lemma search_push:
  assumes "nodes_pipe \<noteq> []" and "last nodes_pipe \<noteq> s"
  shows "search es s nodes_pipe pd =
     search es s
       (butlast nodes_pipe @
          filter (\<lambda>c. pd c = None) (rev (remdups (rev (child_nodes es (last nodes_pipe))))))
       (\<lambda>c. if pd c = None \<and> c \<in> set (child_nodes es (last nodes_pipe))
             then Some (Some (last nodes_pipe)) else pd c)"
  using assms by (subst search.simps) (simp add: discover_fresh Let_def)

lemma find_path_unique_shortest:
  assumes r: "reachable es t s"
    and u: "\<forall>w w'. is_path es s t w \<and> distinct w \<and> is_path es s t w' \<and> distinct w' \<longrightarrow> w = w'"
  shows "\<exists>paths. find_path es s t = Some (Inr paths) \<and> is_path es s t (last paths)
           \<and> (\<forall>w. is_path es s t w \<longrightarrow> length (last paths) \<le> length w)"
proof -
  from find_path_reachable [OF r] obtain paths where
    p: "find_path es s t = Some (Inr paths)" and ip: "is_path es s t (last paths)"
      and d: "distinct (last paths)"
    unfolding is_path_def by blast
  have "length (last paths) \<le> length w" if w: "is_path es s t w" for w
  proof -
    from is_path_simple [OF w] obtain w' where
      w': "is_path es s t w'" "distinct w'" "length w' \<le> length w" by blast
    then have "w' = last paths" using u ip d by blast
    then show ?thesis using w'(3) by simp
  qed
  then show ?thesis using p ip by blast
qed

lemma clinic_unique:
  assumes p: "is_path clinic_es ''LABEVENTS'' ''PATIENTS'' w" and d: "distinct w"
  shows "w = [''LABEVENTS'', ''ADMISSIONS'', ''PATIENTS'']"
proof -
  have l1: "\<And>x. linked clinic_es ''LABEVENTS'' x \<Longrightarrow> x = ''ADMISSIONS''"
    by (auto simp: linked_def clinic_es_def rel_def)
  have l2: "\<And>x. linked clinic_es ''ADMISSIONS'' x \<Longrightarrow> x = ''PATIENTS'' \<or> x = ''LABEVENTS''"
    by (auto simp: linked_def clinic_es_def rel_def)
  have l3: "\<And>x. linked clinic_es ''PATIENTS'' x \<Longrightarrow> x = ''ADMISSIONS''"
    by (auto simp: linked_def clinic_es_def rel_def)
  from p obtain w1 where w: "w = ''LABEVENTS'' # w1" by (cases w) (auto simp: is_path_def)
  from p w obtain x w2 where w1: "w1 = x # w2" by (cases w1) (auto simp: is_path_def)
  have x: "x = ''ADMISSIONS''" using p l1 unfolding w w1 is_path_def by simp
  from p w w1 x obtain y w3 where w2: "w2 = y # w3" by (cases w2) (auto simp: is_path_def)
  have "linked clinic_es ''ADMISSIONS'' y" using p unfolding w w1 w2 x is_path_def by simp
  then have y: "y = ''PATIENTS''" using l2 d unfolding w w1 w2 by auto
  have "w3 = []"
  proof (cases w3)
    case Nil
    then show ?thesis .
  next
    case (Cons z w4)
    have "linked clinic_es ''PATIENTS'' z" using p unfolding w w1 w2 x y Cons is_path_def by simp
    then have "z = ''ADMISSIONS''" by (rule l3)
    then show ?thesis using d unfolding w w1 w2 x Cons by simp
  qed
  then show ?thesis by (simp add: w w1 w2 x y)
qed

lemma clinic_unique_paths: "\<forall>w w'. is_path clinic_es ''LABEVENTS'' ''PATIENTS'' w \<and> distinct w
              \<and> is_path clinic_es ''LABEVENTS'' ''PATIENTS'' w' \<and> distinct w' \<longrightarrow> w = w'"
proof (intro allI impI)
  fix w w'
  assume a: "is_path clinic_es ''LABEVENTS'' ''PATIENTS'' w \<and> distinct w
              \<and> is_path clinic_es ''LABEVENTS'' ''PATIENTS'' w' \<and> distinct w'"
  then have "w = [''LABEVENTS'', ''ADMISSIONS'', ''PATIENTS'']"
    using clinic_unique [of w] by simp
  moreover have "w' = [''LABEVENTS'', ''ADMISSIONS'', ''PATIENTS'']"
    using a clinic_unique [of w'] by simp
  ultimately show "w = w'" by simp
qed

lemma clinic_path: "is_path clinic_es ''LABEVENTS'' ''PATIENTS'' [''LABEVENTS'', ''ADMISSIONS'', ''PATIENTS'']"
  by (simp add: is_path_def linked_def clinic_es_def rel_def)

lemma clinic_simple_paths: "{w. is_path clinic_es ''LABEVENTS'' ''PATIENTS'' w \<and> distinct w}
       = {[''LABEVENTS'', ''ADMISSIONS'', ''PATIENTS'']}"
proof (rule set_eqI)
  fix w
  show "w \<in> {w. is_path clinic_es ''LABEVENTS'' ''PATIENTS'' w \<and> distinct w}
          \<longleftrightarrow> w \<in> {[''LABEVENTS'', ''ADMISSIONS'', ''PATIENTS'']}"
  proof
    assume "w \<in> {w. is_path clinic_es ''LABEVENTS'' ''PATIENTS'' w \<and> distinct w}"
    then show "w \<in> {[''LABEVENTS'', ''ADMISSIONS'', ''PATIENTS'']}"
      using clinic_unique [of w] by simp
  next
    assume "w \<in> {[''LABEVENTS'', ''ADMISSIONS'', ''PATIENTS'']}"
    then show "w \<in> {w. is_path clinic_es ''LABEVENTS'' ''PATIENTS'' w \<and> distinct w}"
      using clinic_path by simp
  qed
qed

lemma ring_child_nodes: "child_nodes ring_es ''T'' = [''A'', ''B'']"
  by (simp add: ring_es_def rel_def child_nodes_def get_backward_dataframes_def
        get_forward_dataframes_def)

text \<open>
  Claim C3 (path resolution algorithm), as amended.  \<open>find_path\<close> always terminates with a
  result.  Its search runs outward from the target entity over the undirected relationship
  graph with a stack, not level by level: a step takes the entity pushed last and, unless
  it is the source entity, pushes those of its neighbours that are not yet discovered,
  once each, in the order of the relationship list (children before parents), recording
  the entity taken as their parent.  Whenever the source entity can be reached from the
  target entity, the last path returned leads from the source to the target along
  relationships and visits no entity twice.  On an entity graph in which there is only
  one such simple path from the source to the target, as in every acyclic graph, no
  relationship path from the source to the target has fewer hops than the one returned.
\<close>

theorem find_path_returns_a_path:
  "(\<exists>res. find_path es source_entity target_entity = Some res)
   \<and> (nodes_pipe \<noteq> [] \<and> last nodes_pipe \<noteq> source_entity \<longrightarrow>
        search es source_entity nodes_pipe parent_dict =
          search es source_entity
            (butlast nodes_pipe @
               filter (\<lambda>c. parent_dict c = None)
                 (rev (remdups (rev (child_nodes es (last nodes_pipe))))))
            (\<lambda>c. if parent_dict c = None \<and> c \<in> set (child_nodes es (last nodes_pipe))
                  then Some (Some (last nodes_pipe)) else parent_dict c))
   \<and> (reachable es target_entity source_entity \<longrightarrow>
        (\<exists>paths. find_path es source_entity target_entity = Some (Inr paths)
           \<and> paths \<noteq> []
           \<and> is_path es source_entity target_entity (last paths)
           \<and> distinct (last paths)
           \<and> ((\<forall>w w'. is_path es source_entity target_entity w \<and> distinct w
                      \<and> is_path es source_entity target_entity w' \<and> distinct w'
                      \<longrightarrow> w = w')
                \<longrightarrow> (\<forall>w. is_path es source_entity target_entity w
                       \<longrightarrow> length (last paths) \<le> length w))))"
proof (intro conjI impI)
  show "\<exists>res. find_path es source_entity target_entity = Some res"
    using find_path_reachable [of es target_entity source_entity]
      find_path_unreachable [of es target_entity source_entity]
    by (cases "reachable es target_entity source_entity") auto
next
  assume "nodes_pipe \<noteq> [] \<and> last nodes_pipe \<noteq> source_entity"
  then show "search es source_entity nodes_pipe parent_dict =
          search es source_entity
            (butlast nodes_pipe @
               filter (\<lambda>c. parent_dict c = None)
                 (rev (remdups (rev (child_nodes es (last nodes_pipe))))))
            (\<lambda>c. if parent_dict c = None \<and> c \<in> set (child_nodes es (last nodes_pipe))
                  then Some (Some (last nodes_pipe)) else parent_dict c)"
    by (simp add: search_push)
next
  assume r: "reachable es target_entity source_entity"
  from find_path_reachable [OF r] obtain paths where
    p: "find_path es source_entity target_entity = Some (Inr paths)" "paths \<noteq> []"
      and ip: "is_path es source_entity target_entity (last paths)"
      and d: "distinct (last paths)"
    unfolding is_path_def by blast
  have sh: "(\<forall>w w'. is_path es source_entity target_entity w \<and> distinct w
                      \<and> is_path es source_entity target_entity w' \<and> distinct w'
                      \<longrightarrow> w = w')
                \<longrightarrow> (\<forall>w. is_path es source_entity target_entity w
                       \<longrightarrow> length (last paths) \<le> length w)"
  proof
    assume u: "\<forall>w w'. is_path es source_entity target_entity w \<and> distinct w
                      \<and> is_path es source_entity target_entity w' \<and> distinct w'
                      \<longrightarrow> w = w'"
    from find_path_unique_shortest [OF r u] obtain paths' where
      q: "find_path es source_entity target_entity = Some (Inr paths')"
         "\<forall>w. is_path es source_entity target_entity w \<longrightarrow> length (last paths') \<le> length w"
      by (elim exE conjE) (rule that; assumption)
    from q(1) p(1) have "paths' = paths" by simp
    with q(2) show "\<forall>w. is_path es source_entity target_entity w
                       \<longrightarrow> length (last paths) \<le> length w" by simp
  qed
  show "\<exists>paths. find_path es source_entity target_entity = Some (Inr paths)
           \<and> paths \<noteq> []
           \<and> is_path es source_entity target_entity (last paths)
           \<and> distinct (last paths)
           \<and> ((\<forall>w w'. is_path es source_entity target_entity w \<and> distinct w
                      \<and> is_path es source_entity target_entity w' \<and> distinct w'
                      \<longrightarrow> w = w')
                \<longrightarrow> (\<forall>w. is_path es source_entity target_entity w
                       \<longrightarrow> length (last paths) \<le> length w))"
    by (intro exI [of _ paths] conjI) (fact p ip d sh)+
qed

theorem find_path_returns_a_path_witness:
  "reachable clinic_es ''PATIENTS'' ''LABEVENTS''
   \<and> {w. is_path clinic_es ''LABEVENTS'' ''PATIENTS'' w \<and> distinct w}
       = {[''LABEVENTS'', ''ADMISSIONS'', ''PATIENTS'']}
   \<and> find_path clinic_es ''LABEVENTS'' ''PATIENTS'' =
       Some (Inr [[''LABEVENTS''], [''LABEVENTS'', ''ADMISSIONS''],
                  [''LABEVENTS'', ''ADMISSIONS'', ''PATIENTS'']])
   \<and> distinct [''LABEVENTS'', ''ADMISSIONS'', ''PATIENTS'']
   \<and> \<not> (\<exists>w. is_path clinic_es ''LABEVENTS'' ''PATIENTS'' w \<and> length w < 3)
   \<and> search ring_es ''S'' [''T''] [''T'' \<mapsto> None] =
       search ring_es ''S'' [''A'', ''B'']
         [''T'' \<mapsto> None, ''A'' \<mapsto> Some ''T'', ''B'' \<mapsto> Some ''T'']"
proof -
  have "linked clinic_es ''PATIENTS'' ''ADMISSIONS''" "linked clinic_es ''ADMISSIONS'' ''LABEVENTS''"
    by (simp_all add: linked_def clinic_es_def rel_def)
  then have r: "reachable clinic_es ''PATIENTS'' ''LABEVENTS''"
    using linked_reachable reachable_refl by blast
  have e: "find_path clinic_es ''LABEVENTS'' ''PATIENTS'' =
       Some (Inr [[''LABEVENTS''], [''LABEVENTS'', ''ADMISSIONS''],
                  [''LABEVENTS'', ''ADMISSIONS'', ''PATIENTS'']])"
    by (simp add: find_path_def clinic_es_def rel_def child_nodes_def get_backward_dataframes_def
          get_forward_dataframes_def search.simps walk.simps Let_def)
  note thm1 = find_path_returns_a_path [of clinic_es "''LABEVENTS''" "''PATIENTS''",
      THEN conjunct2, THEN conjunct2, THEN mp, OF r]
  from thm1 obtain paths where
    q: "find_path clinic_es ''LABEVENTS'' ''PATIENTS'' = Some (Inr paths)"
       "(\<forall>w w'. is_path clinic_es ''LABEVENTS'' ''PATIENTS'' w \<and> distinct w
                      \<and> is_path clinic_es ''LABEVENTS'' ''PATIENTS'' w' \<and> distinct w'
                      \<longrightarrow> w = w')
                \<longrightarrow> (\<forall>w. is_path clinic_es ''LABEVENTS'' ''PATIENTS'' w
                       \<longrightarrow> length (last paths) \<le> length w)"
    by (elim exE conjE) (rule that; assumption)
  from q(2) clinic_unique_paths
  have m: "\<forall>w. is_path clinic_es ''LABEVENTS'' ''PATIENTS'' w
                       \<longrightarrow> length (last paths) \<le> length w" by (rule mp)
  from trans [OF q(1) [symmetric] e]
  have "paths = [[''LABEVENTS''], [''LABEVENTS'', ''ADMISSIONS''],
                  [''LABEVENTS'', ''ADMISSIONS'', ''PATIENTS'']]" by simp
  then have lp: "last paths = [''LABEVENTS'', ''ADMISSIONS'', ''PATIENTS'']"
    by simp
  have l: "\<not> (\<exists>w. is_path clinic_es ''LABEVENTS'' ''PATIENTS'' w \<and> length w < 3)"
  proof
    assume "\<exists>w. is_path clinic_es ''LABEVENTS'' ''PATIENTS'' w \<and> length w < 3"
    then obtain w where w: "is_path clinic_es ''LABEVENTS'' ''PATIENTS'' w" "length w < 3"
      by (elim exE conjE)
    from m w(1) have "length (last paths) \<le> length w" by simp
    then show False using w(2) by (simp add: lp)
  qed
  have pre: "[''T''] \<noteq> [] \<and> last [''T''] \<noteq> ''S''" by simp
  note thm2 = find_path_returns_a_path [where es = ring_es and source_entity = "''S''"
      and nodes_pipe = "[''T'']" and parent_dict = "[''T'' \<mapsto> None]",
      THEN conjunct2, THEN conjunct1, THEN mp, OF pre]
  have a1: "butlast [''T''] @
               filter (\<lambda>c. [''T'' \<mapsto> None] c = None)
                 (rev (remdups (rev (child_nodes ring_es (last [''T''])))))
             = [''A'', ''B'']"
    by (simp add: ring_child_nodes)
  have a2: "(\<lambda>c. if [''T'' \<mapsto> None] c = None \<and> c \<in> set (child_nodes ring_es (last [''T'']))
                  then Some (Some (last [''T''])) else [''T'' \<mapsto> None] c)
             = [''T'' \<mapsto> None, ''A'' \<mapsto> Some ''T'', ''B'' \<mapsto> Some ''T'']"
    by (rule ext) (simp add: ring_child_nodes)
  have st: "search ring_es ''S'' [''T''] [''T'' \<mapsto> None] =
       search ring_es ''S'' [''A'', ''B'']
         [''T'' \<mapsto> None, ''A'' \<mapsto> Some ''T'', ''B'' \<mapsto> Some ''T'']"
    using thm2 by (simp only: a1 a2)
  have d: "distinct [''LABEVENTS'', ''ADMISSIONS'', ''PATIENTS'']" by simp
  show ?thesis
    by (intro conjI) (fact r clinic_simple_paths e d l st)+
qed

text \<open>
  The claim as stated asks for a shortest path on every entity graph.  In the entity set
  \<open>ring_es\<close>, whose relationships form a cycle, the entity \<open>S\<close> is two hops from \<open>T\<close>
  (through \<open>A\<close>); \<open>find_path\<close> returns the three-hop path through \<open>C\<close> and \<open>B\<close>.
\<close>

theorem find_path_shortest_counterexample:
  "find_path ring_es ''S'' ''T'' =
     Some (Inr [[''S''], [''S'', ''C''], [''S'', ''C'', ''B''], [''S'', ''C'', ''B'', ''T'']])
   \<and> successively (linked ring_es) [''S'', ''A'', ''T'']"
  by (simp add: find_path_def ring_es_def rel_def child_nodes_def get_backward_dataframes_def
        get_forward_dataframes_def search.simps walk.simps Let_def linked_def)

section \<open>Cutoff-time propagation\<close>

text \<open>
  The pandas operations \<open>transfer_cutoff_times\<close> uses.  \<open>df.loc[labels]\<close> with a list
  of labels returns, label by label, the rows carrying that label and raises
  \<open>KeyError\<close> when a label is not in the index.
\<close>

definition lookup_all :: "cell list \<Rightarrow> 'a list \<Rightarrow> cell \<Rightarrow> 'a list" where
  "lookup_all idx vs l = map snd (filter (\<lambda>(i, v). i = l) (zip idx vs))"

definition loc_list :: "dataframe \<Rightarrow> cell list \<Rightarrow> error + dataframe" where
  "loc_list df labels =
     (if list_all (\<lambda>l. l \<in> set (index df)) labels
      then Inr \<lparr>index = concat (map (lookup_all (index df) (index df)) labels),
                columns = map (\<lambda>(n, vs). (n, concat (map (lookup_all (index df) vs) labels)))
                            (columns df)\<rparr>
      else Inl KeyError)"

text \<open>\<open>df.index = labels\<close> needs one label per row.\<close>

definition set_axis :: "dataframe \<Rightarrow> cell list \<Rightarrow> error + dataframe" where
  "set_axis df labels =
     (if length labels = length (index df) then Inr (df\<lparr>index := labels\<rparr>) else Inl ValueError)"

text \<open>
  \<open>df[name] = series\<close> aligns the series with the frame's index: a label the series
  lacks gets a missing value, and a series with repeated labels cannot be aligned unless
  its index is the frame's.  An existing column keeps its place, a new one goes last.
\<close>

definition missing_for :: "cell list \<Rightarrow> cell" where
  "missing_for vs = (if list_ex (\<lambda>c. case c of Time t \<Rightarrow> True | NaT \<Rightarrow> True | _ \<Rightarrow> False) vs
                     then NaT else NaN)"

definition align :: "cell list \<Rightarrow> cell list \<Rightarrow> cell list \<Rightarrow> error + cell list" where
  "align idx sidx svals =
     (if sidx = idx then Inr svals
      else if \<not> distinct sidx then Inl ValueError
      else Inr (map (\<lambda>l. case map_of (zip sidx svals) l of
                           None \<Rightarrow> missing_for svals | Some v \<Rightarrow> v) idx))"

definition set_column :: "dataframe \<Rightarrow> string \<Rightarrow> cell list \<Rightarrow> dataframe" where
  "set_column df name vs =
     (if name \<in> set (column_names df)
      then df\<lparr>columns := map (\<lambda>(n, ws). if n = name then (n, vs) else (n, ws)) (columns df)\<rparr>
      else df\<lparr>columns := columns df @ [(name, vs)]\<rparr>)"

definition setitem :: "dataframe \<Rightarrow> string \<Rightarrow> cell list \<Rightarrow> cell list \<Rightarrow> error + dataframe" where
  "setitem df name sidx svals =
     and_then (align (index df) sidx svals) (\<lambda>vs. Inr (set_column df name vs))"

text \<open>\<open>df.set_index(name, drop=True)\<close>: a new frame indexed by that column.\<close>

definition set_index :: "dataframe \<Rightarrow> string \<Rightarrow> error + dataframe" where
  "set_index df name =
     and_then (getitem df name) (\<lambda>vs.
       Inr \<lparr>index = vs, columns = filter (\<lambda>(n, ws). n \<noteq> name) (columns df)\<rparr>)"

text \<open>
  \<open>df.groupby(key).time.idxmax().values\<close>: the groups are the distinct keys that are
  not missing, in ascending order (numbers before strings); each group yields the label
  of its first row holding the greatest time, missing times left out.  The \<open>time\<close> column
  is a datetime or a numeric column.  A group without any time has no such label; the
  model raises there.
\<close>

fun cell_less :: "cell \<Rightarrow> cell \<Rightarrow> bool" where
  "cell_less (Num a) (Num b) = (a < b)"
| "cell_less (Num a) (Str b) = True"
| "cell_less (Num a) (Time b) = True"
| "cell_less (Str a) (Str b) = (a < b)"
| "cell_less (Str a) (Time b) = True"
| "cell_less (Time a) (Time b) = (a < b)"
| "cell_less _ _ = False"

fun insort_key :: "cell \<Rightarrow> cell list \<Rightarrow> cell list" where
  "insort_key k [] = [k]"
| "insort_key k (x # xs) =
     (if k = x then x # xs else if cell_less k x then k # x # xs else x # insort_key k xs)"

definition group_keys :: "cell list \<Rightarrow> cell list" where
  "group_keys keys = foldr insort_key (filter (\<lambda>k. k \<noteq> NaN \<and> k \<noteq> NaT) keys) []"

definition time_values :: "cell list \<Rightarrow> error + real option list" where
  "time_values col =
     (if list_all (\<lambda>c. case c of Time t \<Rightarrow> True | NaT \<Rightarrow> True | _ \<Rightarrow> False) col
      then Inr (map (\<lambda>c. case c of Time t \<Rightarrow> Some (real_of_int t) | _ \<Rightarrow> None) col)
      else if list_all (\<lambda>c. case c of Num x \<Rightarrow> True | NaN \<Rightarrow> True | _ \<Rightarrow> False) col
      then Inr (map (\<lambda>c. case c of Num x \<Rightarrow> Some x | _ \<Rightarrow> None) col)
      else Inl TypeError)"

fun arg_best ::
  "(real \<Rightarrow> real \<Rightarrow> bool) \<Rightarrow> (cell \<times> real option) list \<Rightarrow> (cell \<times> real) option \<Rightarrow> (cell \<times> real) option"
where
  "arg_best better [] best = best"
| "arg_best better ((l, None) # rs) best = arg_best better rs best"
| "arg_best better ((l, Some v) # rs) None = arg_best better rs (Some (l, v))"
| "arg_best better ((l, Some v) # rs) (Some (bl, bv)) =
     arg_best better rs (if better v bv then Some (l, v) else Some (bl, bv))"

definition groupby_time_idx ::
  "(real \<Rightarrow> real \<Rightarrow> bool) \<Rightarrow> dataframe \<Rightarrow> string \<Rightarrow> error + cell list" where
  "groupby_time_idx better df key =
     and_then (getitem df key) (\<lambda>keys.
       case map_of (columns df) ''time'' of
         None \<Rightarrow> Inl AttributeError
       | Some tcol \<Rightarrow>
           and_then (time_values tcol) (\<lambda>tv.
             sequence (map (\<lambda>k.
               case arg_best better
                      (map (\<lambda>(l, k', v). (l, v))
                         (filter (\<lambda>(l, k', v). k' = k) (zip (index df) (zip keys tv)))) None of
                 None \<Rightarrow> Inl ValueError
               | Some (l, v) \<Rightarrow> Inr l) (group_keys keys))))"

text \<open>Creating an object takes the next free reference.\<close>

definition alloc :: "heap \<Rightarrow> dataframe \<Rightarrow> heap \<times> ref" where
  "alloc h df = (h\<lparr>objs := (objs h)(next_ref h := df), next_ref := Suc (next_ref h)\<rparr>, next_ref h)"

definition store :: "heap \<Rightarrow> ref \<Rightarrow> dataframe \<Rightarrow> heap" where
  "store h r df = h\<lparr>objs := (objs h)(r := df)\<rparr>"

text \<open>
  One hop of \<open>transfer_cutoff_times\<close> (\<^verbatim>\<open>utils/entityset_helpers.py\<close>), the body of its
  loop: the first relationship between the two entities decides the direction.  The
  variable \<open>cutoff_times\<close> is a reference; the heap is returned with the result, also
  when the hop raises.
\<close>

definition options :: "entityset \<Rightarrow> string \<Rightarrow> string \<Rightarrow> relationship list" where
  "options es source target =
     filter (\<lambda>r. (child_dataframe r = source \<and> parent_dataframe r = target)
               \<or> (parent_dataframe r = source \<and> child_dataframe r = target))
       (relationships es)"

definition to_child :: "entityset \<Rightarrow> relationship \<Rightarrow> heap \<Rightarrow> ref \<Rightarrow> heap \<times> (error + ref)" where
  "to_child es r h cutoff_times =
     (case and_then (es_getitem es (child_dataframe r)) (\<lambda>child.
             and_then (getitem (objs h child) (child_column r)) (\<lambda>child_df_index.
               and_then (loc_list (objs h cutoff_times) child_df_index) (\<lambda>df. Inr (child, df)))) of
        Inl e \<Rightarrow> (h, Inl e)
      | Inr (child, df) \<Rightarrow>
          (case alloc h df of (h1, ct1) \<Rightarrow>
             (case set_axis (objs h1 ct1) (index (objs h1 child)) of
                Inl e \<Rightarrow> (h1, Inl e)
              | Inr df' \<Rightarrow> (store h1 ct1 df', Inr ct1))))"

definition to_parent ::
  "entityset \<Rightarrow> string \<Rightarrow> relationship \<Rightarrow> heap \<Rightarrow> ref \<Rightarrow> heap \<times> (error + ref)" where
  "to_parent es reduce r h cutoff_times =
     (case and_then (es_getitem es (child_dataframe r)) (\<lambda>child.
             and_then (getitem (objs h child) (child_column r)) (\<lambda>vals.
               setitem (objs h cutoff_times) (child_column r) (index (objs h child)) vals)) of
        Inl e \<Rightarrow> (h, Inl e)
      | Inr df \<Rightarrow>
          (let h1 = store h cutoff_times df in
           case (if reduce = ''latest'' then groupby_time_idx (\<lambda>a b. b < a) df (child_column r)
                 else if reduce = ''earist'' then groupby_time_idx (\<lambda>a b. a < b) df (child_column r)
                 else Inl ValueError) of
             Inl e \<Rightarrow> (h1, Inl e)
           | Inr idx \<Rightarrow>
               (case loc_list df idx of
                  Inl e \<Rightarrow> (h1, Inl e)
                | Inr df2 \<Rightarrow>
                    (case alloc h1 df2 of (h2, ct2) \<Rightarrow>
                       (case set_index df2 (child_column r) of
                          Inl e \<Rightarrow> (h2, Inl e)
                        | Inr df3 \<Rightarrow> (case alloc h2 df3 of (h3, ct3) \<Rightarrow> (h3, Inr ct3)))))))"

definition transfer_step ::
  "entityset \<Rightarrow> string \<Rightarrow> string \<Rightarrow> string \<Rightarrow> heap \<Rightarrow> ref \<Rightarrow> heap \<times> (error + ref)" where
  "transfer_step es reduce source target h cutoff_times =
     (case options es source target of
        [] \<Rightarrow> (h, Inl ValueError)
      | r # rs \<Rightarrow>
          if target = child_dataframe r then to_child es r h cutoff_times
          else if source = child_dataframe r then to_parent es reduce r h cutoff_times
          else (h, Inr cutoff_times))"

fun transfer_loop ::
  "entityset \<Rightarrow> string \<Rightarrow> string list \<Rightarrow> heap \<Rightarrow> ref \<Rightarrow> heap \<times> (error + ref)" where
  "transfer_loop es reduce (source # target # path) h cutoff_times =
     (case transfer_step es reduce source target h cutoff_times of
        (h', Inl e) \<Rightarrow> (h', Inl e)
      | (h', Inr ct') \<Rightarrow> transfer_loop es reduce (target # path) h' ct')"
| "transfer_loop es reduce path h cutoff_times = (h, Inr cutoff_times)"

definition transfer_cutoff_times ::
  "entityset \<Rightarrow> heap \<Rightarrow> ref \<Rightarrow> string \<Rightarrow> string \<Rightarrow> string \<Rightarrow> (heap \<times> (error + ref)) option" where
  "transfer_cutoff_times es h cutoff_times source_entity target_entity reduce =
     (case find_path es source_entity target_entity of
        None \<Rightarrow> None
      | Some (Inl e) \<Rightarrow> Some (h, Inl e)
      | Some (Inr paths) \<Rightarrow>
          (if paths = [] then Some (h, Inl IndexError)
           else Some (transfer_loop es reduce (last paths) h cutoff_times)))"

text \<open>
  An example: two patients, three admissions (two of patient 1, at 10:00 and at 14:00),
  and cutoff times for the admissions and for the patients.
\<close>

definition ward_es :: entityset where
  "ward_es = \<lparr>dataframe_dict = [(''PATIENTS'', 0), (''ADMISSIONS'', 1)],
     relationships = [\<lparr>parent_dataframe = ''PATIENTS'', parent_column = ''SUBJECT_ID'',
                       child_dataframe = ''ADMISSIONS'', child_column = ''SUBJECT_ID''\<rparr>]\<rparr>"

definition ward_heap :: heap where
  "ward_heap =
     \<lparr>objs = (\<lambda>_. \<lparr>index = [], columns = []\<rparr>)
        (0 := \<lparr>index = [Num 1, Num 2], columns = [(''SUBJECT_ID'', [Num 1, Num 2])]\<rparr>,
         1 := \<lparr>index = [Num 11, Num 12, Num 13],
               columns = [(''HADM_ID'', [Num 11, Num 12, Num 13]),
                          (''SUBJECT_ID'', [Num 1, Num 1, Num 2])]\<rparr>,
         2 := \<lparr>index = [Num 11, Num 12, Num 13],
               columns = [(''time'', [Time 36000, Time 50400, Time 43200])]\<rparr>,
         3 := \<lparr>index = [Num 1, Num 2], columns = [(''time'', [Time 36000, Time 43200])]\<rparr>,
         4 := \<lparr>index = [Num 1], columns = [(''time'', [Time 36000])]\<rparr>),
      next_ref = 5\<rparr>"

subsection \<open>Label lookup\<close>







subsection \<open>The hop from parent to child\<close>

lemma getitem_map_columns:
  "getitem \<lparr>index = ix, columns = map (\<lambda>(n, vs). (n, F vs)) cs\<rparr> n =
     (case map_of cs n of None \<Rightarrow> Inl KeyError | Some vs \<Rightarrow> Inr (F vs))"
  by (simp add: getitem_def map_of_map split: option.splits)





lemma options_first:
  assumes "options es source target = r # rs"
  shows "r \<in> set (relationships es)
     \<and> ((child_dataframe r = source \<and> parent_dataframe r = target)
        \<or> (parent_dataframe r = source \<and> child_dataframe r = target))"
proof -
  have "r \<in> set (options es source target)" using assms by simp
  then show ?thesis by (simp add: options_def)
qed


lemmas transfer_eval =
  transfer_cutoff_times_def transfer_step_def to_child_def to_parent_def options_def
  find_path_def child_nodes_def get_backward_dataframes_def get_forward_dataframes_def
  search.simps walk.simps Let_def es_getitem_def getitem_def loc_list_def lookup_all_def
  set_axis_def setitem_def align_def set_column_def set_index_def groupby_time_idx_def
  group_keys_def time_values_def alloc_def store_def column_names_def missing_for_def





subsection \<open>What a propagation changes\<close>

lemma to_child_frame:
  assumes "to_child es r h ct = (h', res)"
  shows "next_ref h \<le> next_ref h' \<and> (\<forall>x<next_ref h. objs h' x = objs h x)
     \<and> (\<forall>c. res = Inr c \<longrightarrow> next_ref h \<le> c \<and> c < next_ref h')"
  using assms
  by (auto simp: to_child_def alloc_def store_def set_axis_def
           split: sum.splits prod.splits if_splits)

lemma to_parent_frame:
  assumes "to_parent es reduce r h ct = (h', res)" and "ct < next_ref h"
  shows "next_ref h \<le> next_ref h' \<and> (\<forall>x<next_ref h. x \<noteq> ct \<longrightarrow> objs h' x = objs h x)
     \<and> (objs h' ct = objs h ct \<or> (\<exists>vs. objs h' ct = set_column (objs h ct) (child_column r) vs))
     \<and> (\<forall>c. res = Inr c \<longrightarrow> next_ref h \<le> c \<and> c < next_ref h')"
proof (cases "and_then (es_getitem es (child_dataframe r)) (\<lambda>child.
             and_then (getitem (objs h child) (child_column r)) (\<lambda>vals.
               setitem (objs h ct) (child_column r) (index (objs h child)) vals))")
  case (Inl e)
  then show ?thesis using assms by (auto simp: to_parent_def)
next
  case (Inr df)
  then obtain vs where df: "df = set_column (objs h ct) (child_column r) vs"
    by (auto simp: setitem_def dest!: and_then_Inr)
  show ?thesis
    using assms Inr df
    by (auto simp: to_parent_def Let_def alloc_def store_def
             split: sum.splits prod.splits if_splits)
qed

lemma transfer_step_frame:
  assumes "transfer_step es reduce source target h ct = (h', res)" and "ct < next_ref h"
  shows "next_ref h \<le> next_ref h' \<and> (\<forall>x<next_ref h. x \<noteq> ct \<longrightarrow> objs h' x = objs h x)
     \<and> (objs h' ct = objs h ct
        \<or> (\<exists>r \<in> set (relationships es). \<exists>vs.
              objs h' ct = set_column (objs h ct) (child_column r) vs))
     \<and> (\<forall>c. res = Inr c \<longrightarrow> next_ref h \<le> c \<and> c < next_ref h')"
proof (cases "options es source target")
  case Nil
  then show ?thesis using assms by (auto simp: transfer_step_def)
next
  case (Cons r rs)
  note first = options_first [OF Cons]
  show ?thesis
  proof (cases "target = child_dataframe r")
    case True
    then have "to_child es r h ct = (h', res)" using assms Cons by (simp add: transfer_step_def)
    from to_child_frame [OF this] assms(2) show ?thesis by auto
  next
    case False
    then have "source = child_dataframe r" using first by auto
    then have "to_parent es reduce r h ct = (h', res)"
      using assms Cons False by (simp add: transfer_step_def)
    from to_parent_frame [OF this assms(2)] first show ?thesis by blast
  qed
qed

lemma transfer_loop_frame:
  "transfer_loop es reduce path h ct = (h', res) \<Longrightarrow> ct < next_ref h \<Longrightarrow>
   next_ref h \<le> next_ref h' \<and> (\<forall>x<next_ref h. x \<noteq> ct \<longrightarrow> objs h' x = objs h x)
   \<and> (objs h' ct = objs h ct
      \<or> (\<exists>r \<in> set (relationships es). \<exists>vs.
            objs h' ct = set_column (objs h ct) (child_column r) vs))
   \<and> (\<forall>c. res = Inr c \<longrightarrow> c = ct \<or> next_ref h \<le> c)"
proof (induction es reduce path h ct rule: transfer_loop.induct)
  case (1 es reduce source target path h ct)
  obtain h1 r1 where s: "transfer_step es reduce source target h ct = (h1, r1)"
    by (cases "transfer_step es reduce source target h ct")
  note f = transfer_step_frame [OF s "1.prems"(2)]
  show ?case
  proof (cases r1)
    case (Inl e)
    then have "h' = h1" "res = Inl e" using "1.prems"(1) s by auto
    then show ?thesis using f by auto
  next
    case (Inr c1)
    then have loop: "transfer_loop es reduce (target # path) h1 c1 = (h', res)"
      using "1.prems"(1) s by simp
    have c1: "next_ref h \<le> c1" "c1 < next_ref h1" using f Inr by auto
    from "1.IH" [OF s [symmetric] Inr loop c1(2)]
    have g: "next_ref h1 \<le> next_ref h'" "\<forall>x<next_ref h1. x \<noteq> c1 \<longrightarrow> objs h' x = objs h1 x"
      "\<forall>c. res = Inr c \<longrightarrow> c = c1 \<or> next_ref h1 \<le> c" by auto
    have same: "objs h' x = objs h1 x" if "x < next_ref h" for x
      using g(2) c1 that by auto
    have "next_ref h \<le> next_ref h'" using f g(1) by auto
    moreover have "\<forall>x<next_ref h. x \<noteq> ct \<longrightarrow> objs h' x = objs h x" using same f by auto
    moreover have "objs h' ct = objs h1 ct" using same "1.prems"(2) by simp
    moreover have "\<forall>c. res = Inr c \<longrightarrow> c = ct \<or> next_ref h \<le> c" using g(3) c1 f by auto
    ultimately show ?thesis using f by auto
  qed
qed auto

lemma set_column_index: "index (set_column df n vs) = index df"
  by (simp add: set_column_def)

lemma set_column_other: "m \<noteq> n \<Longrightarrow> getitem (set_column df n vs) m = getitem df m"
proof -
  have "m \<noteq> n \<Longrightarrow> map_of (map (\<lambda>(k, ws). if k = n then (k, vs) else (k, ws)) cs) m = map_of cs m" for cs
    by (induction cs) auto
  then show "m \<noteq> n \<Longrightarrow> getitem (set_column df n vs) m = getitem df m"
    by (auto simp: set_column_def getitem_def map_add_def split: option.splits)
qed


text \<open>
  Claim C10 (what propagation leaves unchanged), as amended.  \<open>find_path\<close> reads only
  the relationship list and changes nothing.  \<open>transfer_cutoff_times\<close> leaves every
  existing data frame other than the caller's cutoff-time frame unchanged, among them
  the entity set's frames; of the caller's frame it keeps the index and every column
  that is not a relationship's child key, but a first hop from child to parent writes
  that relationship's child key column into the caller's frame in place; a mapping it
  returns is the caller's own frame (when the path has no hop) or a new one.
\<close>

theorem transfer_frame:
  assumes "transfer_cutoff_times es h ct source_entity target_entity reduce = Some (h', res)"
    and "ct < next_ref h"
  shows "(\<forall>x. x < next_ref h \<and> x \<noteq> ct \<longrightarrow> objs h' x = objs h x)
     \<and> index (objs h' ct) = index (objs h ct)
     \<and> (\<forall>n. n \<notin> child_column ` set (relationships es) \<longrightarrow>
            getitem (objs h' ct) n = getitem (objs h ct) n)
     \<and> (\<forall>c. res = Inr c \<longrightarrow> c = ct \<or> next_ref h \<le> c)"
proof (cases "find_path es source_entity target_entity")
  case None
  then show ?thesis using assms by (simp add: transfer_cutoff_times_def)
next
  case (Some fp)
  show ?thesis
  proof (cases fp)
    case (Inl e)
    then show ?thesis using assms Some by (auto simp: transfer_cutoff_times_def)
  next
    case (Inr paths)
    show ?thesis
    proof (cases "paths = []")
      case True
      then show ?thesis using assms Some Inr by (auto simp: transfer_cutoff_times_def)
    next
      case False
      then have "transfer_loop es reduce (last paths) h ct = (h', res)"
        using assms Some Inr by (simp add: transfer_cutoff_times_def)
      from transfer_loop_frame [OF this assms(2)]
      have a: "\<forall>x<next_ref h. x \<noteq> ct \<longrightarrow> objs h' x = objs h x"
        and b: "objs h' ct = objs h ct
            \<or> (\<exists>r \<in> set (relationships es). \<exists>vs.
                  objs h' ct = set_column (objs h ct) (child_column r) vs)"
        and c: "\<forall>c. res = Inr c \<longrightarrow> c = ct \<or> next_ref h \<le> c" by auto
      have "index (objs h' ct) = index (objs h ct)"
        using b by (auto simp: set_column_index)
      moreover have "\<forall>n. n \<notin> child_column ` set (relationships es) \<longrightarrow>
            getitem (objs h' ct) n = getitem (objs h ct) n"
        using b by (metis imageI set_column_other)
      ultimately show ?thesis using a c by auto
    qed
  qed
qed

theorem transfer_frame_witness:
  "2 < next_ref ward_heap
   \<and> (\<exists>h'. transfer_cutoff_times ward_es ward_heap 2 ''ADMISSIONS'' ''PATIENTS'' ''latest''
              = Some (h', Inr 6)
         \<and> objs h' 0 = objs ward_heap 0 \<and> objs h' 1 = objs ward_heap 1
         \<and> index (objs h' 2) = [Num 11, Num 12, Num 13]
         \<and> getitem (objs h' 2) ''time'' = Inr [Time 36000, Time 50400, Time 43200])"
proof -
  have a: "2 < next_ref ward_heap" by (simp add: ward_heap_def)
  have "\<exists>h'. transfer_cutoff_times ward_es ward_heap 2 ''ADMISSIONS'' ''PATIENTS'' ''latest''
              = Some (h', Inr 6)"
    by (simp add: transfer_eval ward_es_def ward_heap_def)
  then obtain h' where
    e: "transfer_cutoff_times ward_es ward_heap 2 ''ADMISSIONS'' ''PATIENTS'' ''latest''
          = Some (h', Inr 6)" by blast
  have k: "''time'' \<notin> child_column ` set (relationships ward_es)"
    by (simp add: ward_es_def)
  from transfer_frame [OF e a] k
  have "objs h' 0 = objs ward_heap 0" "objs h' 1 = objs ward_heap 1"
    "index (objs h' 2) = index (objs ward_heap 2)"
    "getitem (objs h' 2) ''time'' = getitem (objs ward_heap 2) ''time''"
    using a by auto
  then have "objs h' 0 = objs ward_heap 0 \<and> objs h' 1 = objs ward_heap 1
         \<and> index (objs h' 2) = [Num 11, Num 12, Num 13]
         \<and> getitem (objs h' 2) ''time'' = Inr [Time 36000, Time 50400, Time 43200]"
    by (simp add: ward_heap_def getitem_def)
  with a e show ?thesis by blast
qed

text \<open>
  The claim as stated has the caller's mapping keep its columns.  Propagating the
  admissions' cutoff times to the patients leaves the caller's frame with a second
  column, \<open>SUBJECT_ID\<close>.
\<close>

theorem transfer_mutates_counterexample:
  "(\<exists>h' res. transfer_cutoff_times ward_es ward_heap 2 ''ADMISSIONS'' ''PATIENTS'' ''latest''
                = Some (h', res)
       \<and> column_names (objs h' 2) = [''time'', ''SUBJECT_ID''])
   \<and> column_names (objs ward_heap 2) = [''time'']"
  by (simp add: transfer_eval ward_es_def ward_heap_def)

text \<open>
  Claim C2 (reduction), where the code departs from the claim.  Propagating the
  admissions' cutoff times (10:00 and 14:00 for the two admissions of patient 1) to the
  patients: with \<open>latest\<close> patient 1 receives 14:00; with \<open>earliest\<close> the call raises
  \<open>ValueError\<close>, because the code compares the reduction with the misspelt \<open>earist\<close>; and
  with \<open>earist\<close>, a value outside \<open>latest\<close> and \<open>earliest\<close>, it does not raise but returns
  the minimum, 10:00.
\<close>

theorem transfer_earliest_raises:
  "map_option snd
     (transfer_cutoff_times ward_es ward_heap 2 ''ADMISSIONS'' ''PATIENTS'' ''earliest'')
     = Some (Inl ValueError)
   \<and> (\<exists>h'. transfer_cutoff_times ward_es ward_heap 2 ''ADMISSIONS'' ''PATIENTS'' ''earist''
              = Some (h', Inr 6)
         \<and> objs h' 6 = \<lparr>index = [Num 1, Num 2],
                         columns = [(''time'', [Time 36000, Time 43200])]\<rparr>)
   \<and> (\<exists>h'. transfer_cutoff_times ward_es ward_heap 2 ''ADMISSIONS'' ''PATIENTS'' ''latest''
              = Some (h', Inr 6)
         \<and> objs h' 6 = \<lparr>index = [Num 1, Num 2],
                         columns = [(''time'', [Time 50400, Time 43200])]\<rparr>)"
  by (simp add: transfer_eval ward_es_def ward_heap_def)

section \<open>Merging feature tables\<close>

text \<open>
  \<open>Featurization.merge_features\<close> of \<^verbatim>\<open>featurization/feature.py\<close>.  The merged matrix
  starts as a copy of the first table; then, table by table and descriptor by
  descriptor, a column whose name the matrix does not hold yet is assigned from the
  descriptor's own table (aligned on the index) and its descriptor appended; at the end
  the rows are selected by the first table's index.  Column names within one table are
  taken to be distinct, as \<open>dfs\<close> produces them.
\<close>

fun merge_table ::
  "dataframe \<Rightarrow> feature list \<Rightarrow> dataframe \<times> feature list \<Rightarrow> error + dataframe \<times> feature list"
where
  "merge_table fm [] (feature_matrix, feature_list) = Inr (feature_matrix, feature_list)"
| "merge_table fm (f # fl) (feature_matrix, feature_list) =
     (let col = get_name f in
      if col \<in> set (column_names feature_matrix)
      then merge_table fm fl (feature_matrix, feature_list)
      else and_then (getitem fm col) (\<lambda>vs.
             and_then (setitem feature_matrix col (index fm) vs) (\<lambda>feature_matrix'.
               merge_table fm fl (feature_matrix', feature_list @ [f]))))"

fun merge_loop ::
  "(dataframe \<times> feature list) list \<Rightarrow> dataframe \<times> feature list
     \<Rightarrow> error + dataframe \<times> feature list"
where
  "merge_loop [] st = Inr st"
| "merge_loop ((fm, fl) # rest) st = and_then (merge_table fm fl st) (merge_loop rest)"

definition merge_features ::
  "dataframe list \<Rightarrow> feature list list \<Rightarrow> error + dataframe \<times> feature list" where
  "merge_features fm_list fl_list =
     (case fm_list of
        [] \<Rightarrow> Inl IndexError
      | fm0 # fms \<Rightarrow>
          (case fl_list of
             [] \<Rightarrow> Inl IndexError
           | fl0 # fls \<Rightarrow>
               and_then (merge_loop (zip fm_list fl_list) (fm0, fl0)) (\<lambda>(feature_matrix, feature_list).
                 and_then (loc_list feature_matrix (index fm0)) (\<lambda>df.
                   Inr (df, feature_list)))))"

text \<open>
  \<open>first_col\<close> is the column of a name in the first table that has one: what a merge in
  which the first-seen value wins must hold.
\<close>

fun first_col :: "dataframe list \<Rightarrow> string \<Rightarrow> error + cell list" where
  "first_col [] X = Inl KeyError"
| "first_col (fm # fms) X = (case getitem fm X of Inr vs \<Rightarrow> Inr vs | Inl e \<Rightarrow> first_col fms X)"

text \<open>Two example tables that both produce a feature \<open>X\<close>.\<close>

definition fm_a :: dataframe where
  "fm_a = \<lparr>index = [Num 1, Num 2],
           columns = [(''X'', [Num 1, Num 2]), (''A'', [Num 5, Num 6])]\<rparr>"

definition fm_b :: dataframe where
  "fm_b = \<lparr>index = [Num 1, Num 2],
           columns = [(''B'', [Num 7, Num 8]), (''X'', [Num 9, Num 9])]\<rparr>"

definition fl_a :: "feature list" where
  "fl_a = [\<lparr>get_name = ''X'', primitive = ''mean''\<rparr>, \<lparr>get_name = ''A'', primitive = ''mean''\<rparr>]"

definition fl_b :: "feature list" where
  "fl_b = [\<lparr>get_name = ''B'', primitive = ''std''\<rparr>, \<lparr>get_name = ''X'', primitive = ''std''\<rparr>]"


subsection \<open>The first-seen column wins\<close>

lemma map_of_Some_fst: "map_of cs X = Some v \<Longrightarrow> X \<in> fst ` set cs"
  by (metis map_of_eq_None_iff option.distinct(1))

lemma getitem_KeyError: "getitem df X = Inl e \<longleftrightarrow> X \<notin> set (column_names df) \<and> e = KeyError"
proof (cases "map_of (columns df) X")
  case None
  then have "X \<notin> set (column_names df)" by (simp add: column_names_def map_of_eq_None_iff)
  then show ?thesis using None by (auto simp: getitem_def)
next
  case (Some v)
  then show ?thesis using map_of_Some_fst [OF Some] by (simp add: getitem_def column_names_def)
qed

lemma getitem_absent: "X \<notin> set (column_names df) \<Longrightarrow> getitem df X = Inl KeyError"
  using getitem_KeyError [of df X] by (cases "getitem df X") auto

lemma getitem_set_column_new:
  assumes "col \<notin> set (column_names M)"
  shows "getitem (set_column M col vs) X = (if X \<in> set (column_names M) then getitem M X
                                      else if X = col then Inr vs else Inl KeyError)"
proof (cases "map_of (columns M) X")
  case None
  then have "X \<notin> set (column_names M)" by (simp add: column_names_def map_of_eq_None_iff)
  then show ?thesis using assms None
    by (simp add: set_column_def getitem_def map_add_def)
next
  case (Some v)
  then have "X \<in> set (column_names M)" using map_of_Some_fst by (simp add: column_names_def)
  then show ?thesis using assms Some
    by (simp add: set_column_def getitem_def map_add_def)
qed

lemma column_names_set_column_new:
  "col \<notin> set (column_names M) \<Longrightarrow> column_names (set_column M col vs) = column_names M @ [col]"
  by (simp add: set_column_def column_names_def)

lemma wf_df_set_column_new:
  "wf_df M \<Longrightarrow> length vs = length (index M) \<Longrightarrow> col \<notin> set (column_names M) \<Longrightarrow>
   wf_df (set_column M col vs)"
  by (simp add: wf_df_def set_column_def)

lemma merge_table_ok:
  assumes "index fm = index M" and "wf_df fm" and "wf_df M"
    and "get_name ` set fl \<subseteq> set (column_names fm)"
  shows "\<exists>M' L'. merge_table fm fl (M, L) = Inr (M', L')
     \<and> index M' = index M \<and> wf_df M'
     \<and> set (column_names M') = set (column_names M) \<union> get_name ` set fl
     \<and> (\<forall>X. getitem M' X = (if X \<in> set (column_names M) then getitem M X
                            else if X \<in> get_name ` set fl then getitem fm X
                            else Inl KeyError))
     \<and> get_name ` set L' = get_name ` set L \<union> (get_name ` set fl - set (column_names M))"
  using assms
proof (induction fl arbitrary: M L)
  case Nil
  then show ?case by (auto simp: getitem_absent)
next
  case (Cons f fl)
  let ?col = "get_name f"
  show ?case
  proof (cases "?col \<in> set (column_names M)")
    case True
    from Cons.IH [of M L] Cons.prems obtain M' L' where
      r: "merge_table fm fl (M, L) = Inr (M', L')" "index M' = index M" "wf_df M'"
         "set (column_names M') = set (column_names M) \<union> get_name ` set fl"
         "\<forall>X. getitem M' X = (if X \<in> set (column_names M) then getitem M X
                            else if X \<in> get_name ` set fl then getitem fm X
                            else Inl KeyError)"
         "get_name ` set L' = get_name ` set L \<union> (get_name ` set fl - set (column_names M))"
      by auto
    have "merge_table fm (f # fl) (M, L) = Inr (M', L')" using True r(1) by simp
    then show ?thesis using True r by auto
  next
    case False
    have "?col \<in> set (column_names fm)" using Cons.prems(4) by auto
    then obtain vs where vs: "getitem fm ?col = Inr vs"
      by (cases "getitem fm ?col") (auto simp: getitem_KeyError)
    have lv: "length vs = length (index M)"
      using wf_df_getitem [OF Cons.prems(2) vs] Cons.prems(1) by simp
    let ?M = "set_column M ?col vs"
    have si: "setitem M ?col (index fm) vs = Inr ?M"
      using Cons.prems(1) by (simp add: setitem_def align_def)
    have wf: "wf_df ?M" using wf_df_set_column_new [OF Cons.prems(3) lv False] .
    have ix: "index fm = index ?M" using Cons.prems(1) by (simp add: set_column_index)
    from Cons.IH [OF ix Cons.prems(2) wf, of "L @ [f]"] Cons.prems(4) obtain M' L' where
      r: "merge_table fm fl (?M, L @ [f]) = Inr (M', L')" "index M' = index ?M" "wf_df M'"
         "set (column_names M') = set (column_names ?M) \<union> get_name ` set fl"
         "\<forall>X. getitem M' X = (if X \<in> set (column_names ?M) then getitem ?M X
                            else if X \<in> get_name ` set fl then getitem fm X
                            else Inl KeyError)"
         "get_name ` set L' = get_name ` set (L @ [f]) \<union> (get_name ` set fl - set (column_names ?M))"
      by auto
    have m: "merge_table fm (f # fl) (M, L) = Inr (M', L')"
      using False vs si r(1) by simp
    have names: "set (column_names ?M) = insert ?col (set (column_names M))"
      using column_names_set_column_new [OF False] by simp
    have "\<forall>X. getitem M' X = (if X \<in> set (column_names M) then getitem M X
                            else if X \<in> get_name ` set (f # fl) then getitem fm X
                            else Inl KeyError)"
      using r(5) names vs False by (auto simp: getitem_set_column_new)
    moreover have "set (column_names M') = set (column_names M) \<union> get_name ` set (f # fl)"
      using r(4) names by auto
    moreover have "get_name ` set L' = get_name ` set L \<union> (get_name ` set (f # fl) - set (column_names M))"
      using r(6) names False by auto
    ultimately show ?thesis using m r(2,3) by (auto simp: set_column_index)
  qed
qed


lemma merge_loop_ok:
  assumes "\<forall>(fm, fl) \<in> set tabs. index fm = index M \<and> wf_df fm
             \<and> get_name ` set fl = set (column_names fm)"
    and "wf_df M"
  shows "\<exists>M' L'. merge_loop tabs (M, L) = Inr (M', L')
     \<and> index M' = index M \<and> wf_df M'
     \<and> set (column_names M') = set (column_names M) \<union> (\<Union>(fm, fl) \<in> set tabs. set (column_names fm))
     \<and> (\<forall>X. getitem M' X = (if X \<in> set (column_names M) then getitem M X
                            else first_col (map fst tabs) X))
     \<and> get_name ` set L' = get_name ` set L
          \<union> ((\<Union>(fm, fl) \<in> set tabs. set (column_names fm)) - set (column_names M))"
  using assms
proof (induction tabs arbitrary: M L)
  case Nil
  then show ?case by (auto simp: getitem_absent)
next
  case (Cons tab tabs)
  obtain fm fl where tab: "tab = (fm, fl)" by (cases tab)
  have fm: "index fm = index M" "wf_df fm" "get_name ` set fl = set (column_names fm)"
    using Cons.prems(1) tab by auto
  from merge_table_ok [OF fm(1,2) Cons.prems(2), of fl L] fm(3) obtain M1 L1 where
    t: "merge_table fm fl (M, L) = Inr (M1, L1)" "index M1 = index M" "wf_df M1"
       "set (column_names M1) = set (column_names M) \<union> set (column_names fm)"
       "\<forall>X. getitem M1 X = (if X \<in> set (column_names M) then getitem M X
                            else if X \<in> set (column_names fm) then getitem fm X
                            else Inl KeyError)"
       "get_name ` set L1 = get_name ` set L \<union> (set (column_names fm) - set (column_names M))"
    by auto
  have rest: "\<forall>(fm, fl) \<in> set tabs. index fm = index M1 \<and> wf_df fm
             \<and> get_name ` set fl = set (column_names fm)"
    using Cons.prems(1) t(2) by auto
  from Cons.IH [OF rest t(3), of L1] obtain M' L' where
    r: "merge_loop tabs (M1, L1) = Inr (M', L')" "index M' = index M1" "wf_df M'"
       "set (column_names M') = set (column_names M1) \<union> (\<Union>(fm, fl) \<in> set tabs. set (column_names fm))"
       "\<forall>X. getitem M' X = (if X \<in> set (column_names M1) then getitem M1 X
                            else first_col (map fst tabs) X)"
       "get_name ` set L' = get_name ` set L1
          \<union> ((\<Union>(fm, fl) \<in> set tabs. set (column_names fm)) - set (column_names M1))"
    by auto
  have m: "merge_loop (tab # tabs) (M, L) = Inr (M', L')" using tab t(1) r(1) by simp
  have g: "getitem M' X = (if X \<in> set (column_names M) then getitem M X
                            else first_col (map fst (tab # tabs)) X)" for X
  proof (cases "X \<in> set (column_names M)")
    case True
    then show ?thesis using r(5) t(4,5) by simp
  next
    case False
    note notM = this
    show ?thesis
    proof (cases "X \<in> set (column_names fm)")
      case True
      then obtain vs where "getitem fm X = Inr vs"
        using getitem_KeyError [of fm X] by (cases "getitem fm X") auto
      then show ?thesis using r(5) t(4,5) notM True tab by simp
    next
      case False
      then have "getitem fm X = Inl KeyError" by (rule getitem_absent)
      then show ?thesis using r(5) t(4,5) notM False tab by simp
    qed
  qed
  have "set (column_names M') = set (column_names M)
          \<union> (\<Union>(fm, fl) \<in> set (tab # tabs). set (column_names fm))"
    using r(4) t(4) tab by auto
  moreover have "get_name ` set L' = get_name ` set L
          \<union> ((\<Union>(fm, fl) \<in> set (tab # tabs). set (column_names fm)) - set (column_names M))"
    using r(6) t(4,6) tab by auto
  ultimately show ?case using m r(2,3) t(2) g by auto
qed

lemma first_col_nth:
  "k < length fms \<Longrightarrow> X \<in> set (column_names (fms ! k)) \<Longrightarrow>
   \<forall>j<k. X \<notin> set (column_names (fms ! j)) \<Longrightarrow> first_col fms X = getitem (fms ! k) X"
proof (induction fms arbitrary: k)
  case Nil
  then show ?case by simp
next
  case (Cons fm fms)
  show ?case
  proof (cases k)
    case 0
    then obtain vs where "getitem fm X = Inr vs"
      using Cons.prems(2) getitem_KeyError [of fm X] by (cases "getitem fm X") auto
    then show ?thesis using 0 by simp
  next
    case (Suc i)
    then have "X \<notin> set (column_names fm)" using Cons.prems(3) by auto
    then have a: "getitem fm X = Inl KeyError" by (rule getitem_absent)
    have "\<forall>j<i. X \<notin> set (column_names (fms ! j))"
    proof (intro allI impI)
      fix j assume "j < i"
      then have "Suc j < k" using Suc by simp
      then have "X \<notin> set (column_names ((fm # fms) ! Suc j))" using Cons.prems(3) by blast
      then show "X \<notin> set (column_names (fms ! j))" by simp
    qed
    then have "first_col fms X = getitem (fms ! i) X"
      using Cons.IH [of i] Cons.prems Suc by auto
    then show ?thesis using a Suc by simp
  qed
qed

lemma lookup_all_distinct:
  "length vs = length idx \<Longrightarrow> distinct idx \<Longrightarrow> i < length idx \<Longrightarrow>
   lookup_all idx vs (idx ! i) = [vs ! i]"
proof (induction vs idx arbitrary: i rule: list_induct2)
  case Nil
  then show ?case by simp
next
  case (Cons v vs x idx)
  have none: "lookup_all idx vs x = []"
    using Cons.prems(1) by (auto simp: lookup_all_def filter_empty_conv dest: set_zip_leftD)
  show ?case
  proof (cases i)
    case 0
    then show ?thesis using none by (simp add: lookup_all_def)
  next
    case (Suc j)
    then have "idx ! j \<noteq> x" using Cons.prems by auto
    then show ?thesis using Cons Suc by (simp add: lookup_all_def)
  qed
qed

lemma concat_lookup_self:
  assumes "length vs = length idx" "distinct idx"
  shows "concat (map (lookup_all idx vs) idx) = vs"
proof -
  have "map (lookup_all idx vs) idx = map (\<lambda>v. [v]) vs"
    using assms by (intro nth_equalityI) (auto simp: lookup_all_distinct)
  then show ?thesis by simp
qed

lemma loc_list_self:
  assumes "wf_df df" "distinct (index df)"
  shows "loc_list df (index df) = Inr df"
proof -
  have "map (\<lambda>(n, vs). (n, concat (map (lookup_all (index df) vs) (index df)))) (columns df)
        = columns df"
    using assms by (intro map_idI) (auto simp: wf_df_def list_all_iff concat_lookup_self)
  moreover have "concat (map (lookup_all (index df) (index df)) (index df)) = index df"
    using assms(2) by (simp add: concat_lookup_self)
  ultimately show ?thesis by (simp add: loc_list_def list_all_iff)
qed


text \<open>
  Claim C7 (merge precedence).  For feature tables over the same index of distinct
  instance ids, each with the descriptors of exactly its columns, \<open>merge_features\<close>
  returns a matrix over that index in which the column of every feature name holds the
  values of the first table, in the order given, that produces the name: a later table's
  column of the same name is dropped and never overwrites it.  The matrix has every
  produced name, and the merged descriptor list names exactly its columns.
\<close>

theorem merge_precedence:
  assumes "fm_list \<noteq> []"
    and "list_all2 (\<lambda>fm fl. get_name ` set fl = set (column_names fm)) fm_list fl_list"
    and "\<forall>fm \<in> set fm_list. wf_df fm \<and> index fm = index (hd fm_list)"
    and "distinct (index (hd fm_list))"
  shows "\<exists>M L. merge_features fm_list fl_list = Inr (M, L)
     \<and> index M = index (hd fm_list)
     \<and> (\<forall>k X. k < length fm_list \<and> X \<in> set (column_names (fm_list ! k))
               \<and> (\<forall>j<k. X \<notin> set (column_names (fm_list ! j)))
            \<longrightarrow> getitem M X = getitem (fm_list ! k) X)
     \<and> set (column_names M) = (\<Union>fm \<in> set fm_list. set (column_names fm))
     \<and> get_name ` set L = set (column_names M)"
proof -
  obtain fm0 fms where fm_list: "fm_list = fm0 # fms" using assms(1) by (cases fm_list) auto
  obtain fl0 fls where fl_list: "fl_list = fl0 # fls"
    using assms(2) fm_list by (auto simp: list_all2_Cons1)
  define tabs where "tabs = zip fm_list fl_list"
  have len: "length fm_list = length fl_list" using assms(2) by (rule list_all2_lengthD)
  have fst_tabs: "map fst tabs = fm_list" using len by (simp add: tabs_def)
  have cols_tabs: "(\<Union>(fm, fl) \<in> set tabs. set (column_names fm))
                     = (\<Union>fm \<in> set fm_list. set (column_names fm))"
  proof -
    have "set fm_list = fst ` set tabs" using fst_tabs by (metis set_map)
    then show ?thesis by force
  qed
  have tabs: "\<forall>(fm, fl) \<in> set tabs. index fm = index fm0 \<and> wf_df fm
             \<and> get_name ` set fl = set (column_names fm)"
  proof (intro ballI, clarify)
    fix fm fl assume m: "(fm, fl) \<in> set tabs"
    then have "fm \<in> set fm_list" unfolding tabs_def by (rule set_zip_leftD)
    then have "wf_df fm \<and> index fm = index (hd fm_list)" using assms(3) by blast
    then have "index fm = index fm0 \<and> wf_df fm" by (simp add: fm_list)
    moreover have "get_name ` set fl = set (column_names fm)"
    proof -
      have "\<forall>(x, y) \<in> set tabs. get_name ` set y = set (column_names x)"
        using assms(2) by (simp add: list_all2_iff tabs_def)
      then show ?thesis using m by blast
    qed
    ultimately show "index fm = index fm0 \<and> wf_df fm \<and> get_name ` set fl = set (column_names fm)"
      by blast
  qed
  have wf0: "wf_df fm0" using assms(3) fm_list by simp
  have names0: "get_name ` set fl0 = set (column_names fm0)"
    using assms(2) fm_list fl_list by simp
  from merge_loop_ok [OF tabs wf0, of fl0] obtain M L where
    r: "merge_loop tabs (fm0, fl0) = Inr (M, L)" "index M = index fm0" "wf_df M"
       "set (column_names M) = set (column_names fm0)
           \<union> (\<Union>(fm, fl) \<in> set tabs. set (column_names fm))"
       "\<forall>X. getitem M X = (if X \<in> set (column_names fm0) then getitem fm0 X
                            else first_col (map fst tabs) X)"
       "get_name ` set L = get_name ` set fl0
          \<union> ((\<Union>(fm, fl) \<in> set tabs. set (column_names fm)) - set (column_names fm0))"
    by (elim exE conjE) (rule that; assumption)
  have "distinct (index M)" using assms(4) r(2) fm_list by simp
  then have "loc_list M (index fm0) = Inr M" using loc_list_self [OF r(3)] r(2) by simp
  then have res: "merge_features fm_list fl_list = Inr (M, L)"
    using r(1) fm_list fl_list by (simp add: merge_features_def tabs_def)
  have cols: "set (column_names M) = (\<Union>fm \<in> set fm_list. set (column_names fm))"
    using r(4) cols_tabs fm_list by auto
  have names: "get_name ` set L = set (column_names M)"
    using r(6) names0 cols cols_tabs fm_list by auto
  have first: "getitem M X = getitem (fm_list ! k) X"
    if k: "k < length fm_list" and X: "X \<in> set (column_names (fm_list ! k))"
      and early: "\<forall>j<k. X \<notin> set (column_names (fm_list ! j))" for k X
  proof (cases "X \<in> set (column_names fm0)")
    case True
    have "k = 0"
    proof (rule ccontr)
      assume "k \<noteq> 0"
      then have "X \<notin> set (column_names (fm_list ! 0))" using early by simp
      then show False using True fm_list by simp
    qed
    then show ?thesis using True r(5) fm_list by simp
  next
    case False
    then have "getitem M X = first_col fm_list X" using r(5) fst_tabs by simp
    then show ?thesis using first_col_nth [OF k X early] by simp
  qed
  have all_first: "\<forall>k X. k < length fm_list \<and> X \<in> set (column_names (fm_list ! k))
               \<and> (\<forall>j<k. X \<notin> set (column_names (fm_list ! j)))
            \<longrightarrow> getitem M X = getitem (fm_list ! k) X"
    using first by blast
  have ix: "index M = index (hd fm_list)" using r(2) fm_list by simp
  show ?thesis
  proof (intro exI conjI)
    show "merge_features fm_list fl_list = Inr (M, L)" by (fact res)
    show "index M = index (hd fm_list)" by (fact ix)
    show "\<forall>k X. k < length fm_list \<and> X \<in> set (column_names (fm_list ! k))
               \<and> (\<forall>j<k. X \<notin> set (column_names (fm_list ! j)))
            \<longrightarrow> getitem M X = getitem (fm_list ! k) X" by (fact all_first)
    show "set (column_names M) = (\<Union>fm \<in> set fm_list. set (column_names fm))" by (fact cols)
    show "get_name ` set L = set (column_names M)" by (fact names)
  qed
qed

theorem merge_precedence_witness:
  "[fm_a, fm_b] \<noteq> []
   \<and> list_all2 (\<lambda>fm fl. get_name ` set fl = set (column_names fm)) [fm_a, fm_b] [fl_a, fl_b]
   \<and> wf_df fm_a \<and> wf_df fm_b \<and> index fm_b = index fm_a \<and> distinct (index fm_a)
   \<and> merge_features [fm_a, fm_b] [fl_a, fl_b] =
       Inr (\<lparr>index = [Num 1, Num 2],
             columns = [(''X'', [Num 1, Num 2]), (''A'', [Num 5, Num 6]),
                        (''B'', [Num 7, Num 8])]\<rparr>,
            [\<lparr>get_name = ''X'', primitive = ''mean''\<rparr>,
             \<lparr>get_name = ''A'', primitive = ''mean''\<rparr>,
             \<lparr>get_name = ''B'', primitive = ''std''\<rparr>])
   \<and> getitem fm_a ''X'' = Inr [Num 1, Num 2] \<and> getitem fm_b ''X'' = Inr [Num 9, Num 9]"
proof -
  have a: "[fm_a, fm_b] \<noteq> []" by simp
  have b: "list_all2 (\<lambda>fm fl. get_name ` set fl = set (column_names fm)) [fm_a, fm_b] [fl_a, fl_b]"
    by (auto simp: fm_a_def fm_b_def fl_a_def fl_b_def column_names_def)
  have c: "wf_df fm_a" "wf_df fm_b" "index fm_b = index fm_a" "distinct (index fm_a)"
    by (simp_all add: wf_df_def fm_a_def fm_b_def)
  then have c': "\<forall>fm \<in> set [fm_a, fm_b]. wf_df fm \<and> index fm = index (hd [fm_a, fm_b])"
    and d: "distinct (index (hd [fm_a, fm_b]))" by simp_all
  have e: "merge_features [fm_a, fm_b] [fl_a, fl_b] =
       Inr (\<lparr>index = [Num 1, Num 2],
             columns = [(''X'', [Num 1, Num 2]), (''A'', [Num 5, Num 6]),
                        (''B'', [Num 7, Num 8])]\<rparr>,
            [\<lparr>get_name = ''X'', primitive = ''mean''\<rparr>,
             \<lparr>get_name = ''A'', primitive = ''mean''\<rparr>,
             \<lparr>get_name = ''B'', primitive = ''std''\<rparr>])"
    by (simp add: merge_features_def fm_a_def fm_b_def fl_a_def fl_b_def column_names_def
          getitem_def setitem_def align_def set_column_def loc_list_def lookup_all_def Let_def)
  have f: "getitem fm_a ''X'' = Inr [Num 1, Num 2]" "getitem fm_b ''X'' = Inr [Num 9, Num 9]"
    by (simp_all add: getitem_def fm_a_def fm_b_def)
  from merge_precedence [OF a b c' d] obtain M L where
    m: "merge_features [fm_a, fm_b] [fl_a, fl_b] = Inr (M, L)"
    by (elim exE conjE) (rule that)
  note ml = trans [OF m [symmetric] e]
  note e' = trans [OF m ml]
  show ?thesis by (intro conjI) (fact a b c e' f)+
qed

end
